theory Spec2Isabelle
  imports Main "HOL-Library.Word"
begin

section \<open>Data model of lineards.c\<close>

text \<open>
  The library stores elements of a fixed size \<open>data_size\<close>, copied with \<open>memcpy\<close> and
  compared with \<open>memcmp\<close>.  An element is modelled as a value of the type parameter
  \<open>'a\<close>, the type of the blocks of \<open>data_size\<close> bytes: \<open>memcpy\<close> of one element is
  assignment and \<open>memcmp(..) == 0\<close> is equality.  A slot of the vector that was
  allocated but never written holds indeterminate bytes.

  Every \<open>size_t\<close> is a 64-bit word, so \<open>+\<close>, \<open>-\<close> and \<open>*\<close> wrap as in C and the
  comparisons are unsigned.  Offsets and lengths of \<open>memmove\<close> and \<open>memcpy\<close> are counted
  in slots of \<open>data_size\<close> bytes.
\<close>

type_synonym size_t = "64 word"

datatype lds_return_t = LDS_FAIL | LDS_SUCCESS | LDS_POS_ERR | LDS_NULL

datatype lds_type_t = LDS_VECTOR | LDS_LINKED_LIST | LDS_UNKNOWN

datatype 'a cell = Indeterminate | Val 'a

text \<open>
  Undefined behaviour of the C program is a result of its own: the dereference of a
  \<open>NULL\<close> pointer, the dereference of a pointer to no live node, \<open>%\<close> by zero and an
  access outside the buffer.  So is a comparison that reads bytes the program never
  wrote (\<open>IndeterminateRead\<close>): the C program returns from it, but with a result that
  depends on what the allocator left in the block.
\<close>

datatype fault = NullDeref | InvalidPointer | DivByZero | OutOfBounds | IndeterminateRead

definition bind_res :: "fault + 'x \<Rightarrow> ('x \<Rightarrow> fault + 'y) \<Rightarrow> fault + 'y" where
  "bind_res m f = (case m of Inl e \<Rightarrow> Inl e | Inr x \<Rightarrow> f x)"

text \<open>
  A \<open>Node *\<close> is \<open>None\<close> for \<open>NULL\<close> or the address of a node.  The element block a node
  owns through its \<open>data\<close> pointer is allocated with the node and freed with it, so it
  is kept inside the node.
\<close>

type_synonym addr = nat

record 'a Node =
  node_data :: 'a
  node_next :: "addr option"

text \<open>
  \<open>struct LinearDS\<close> with its embedded \<open>struct LDSIterator\<close> (fields \<open>it_...\<close>), and the
  live nodes of the C heap (\<open>heap\<close>).  The union \<open>storage\<close> is kept as two groups of
  fields: a vector uses \<open>vector\<close>, \<open>head\<close>, \<open>tail\<close> and a list uses \<open>list_first\<close>,
  \<open>list_last\<close>; no function of one strategy reads the other group.  The function
  pointers of the structure are fixed at construction, one set per \<open>type\<close>, so the
  dispatch through them is a case distinction on \<open>type'\<close>.
\<close>

record 'a LinearDS =
  vector :: "'a cell list"
  head :: size_t
  tail :: size_t
  list_first :: "addr option"
  list_last :: "addr option"
  size' :: size_t
  capacity :: size_t
  data_size :: size_t
  type' :: lds_type_t
  it_position :: size_t
  it_current :: "addr option"
  it_previous :: "addr option"
  heap :: "addr \<rightharpoonup> 'a Node"

text \<open>
  The answer of the allocator to the requests of one call: \<open>NoMem\<close> when a request
  fails, \<open>Mem a\<close> when they succeed, \<open>a\<close> being the address \<open>malloc\<close> gives the new node
  (the vector, which calls \<open>realloc\<close>, does not use the address).
\<close>

datatype alloc = NoMem | Mem addr

subsection \<open>Memory primitives\<close>

definition mod_sz :: "size_t \<Rightarrow> size_t \<Rightarrow> fault + size_t" where
  "mod_sz a b = (if b = 0 then Inl DivByZero else Inr (a mod b))"

text \<open>
  \<open>memmove(buf + dst, buf + src, n)\<close>: the source range is read before it is written.
  \<open>move_slots\<close> is the effect on a buffer that holds both ranges.
\<close>

definition move_slots :: "'c list \<Rightarrow> nat \<Rightarrow> nat \<Rightarrow> nat \<Rightarrow> 'c list" where
  "move_slots buf d s n = take d buf @ take n (drop s buf) @ drop (d + n) buf"

definition memmove_slots :: "'c list \<Rightarrow> size_t \<Rightarrow> size_t \<Rightarrow> size_t \<Rightarrow> fault + 'c list" where
  "memmove_slots buf dst src n =
     (if unat dst + unat n \<le> length buf \<and> unat src + unat n \<le> length buf
      then Inr (move_slots buf (unat dst) (unat src) (unat n))
      else Inl OutOfBounds)"

definition store_slot :: "'c list \<Rightarrow> size_t \<Rightarrow> 'c \<Rightarrow> fault + 'c list" where
  "store_slot buf i v = (if unat i < length buf then Inr (buf[unat i := v]) else Inl OutOfBounds)"

definition load_slot :: "'c list \<Rightarrow> size_t \<Rightarrow> fault + 'c" where
  "load_slot buf i = (if unat i < length buf then Inr (buf ! unat i) else Inl OutOfBounds)"

text \<open>
  \<open>realloc(vector, new_capacity * data_size)\<close>: the old slots are kept up to the new
  length and the new slots are indeterminate.
\<close>

definition realloc_slots :: "'a cell list \<Rightarrow> size_t \<Rightarrow> 'a cell list" where
  "realloc_slots buf n = take (unat n) buf @ replicate (unat n - length buf) Indeterminate"

text \<open>
  \<open>malloc(n * data_size)\<close>: the product is taken in \<open>size_t\<close>, and the block holds the
  slots that fit in that many bytes, all of them indeterminate (slots of no byte always
  fit).
\<close>

definition malloc_slots :: "size_t \<Rightarrow> size_t \<Rightarrow> 'a cell list" where
  "malloc_slots n dsz =
     replicate (if dsz = 0 then unat n else unat (n * dsz) div unat dsz) Indeterminate"

text \<open>
  \<open>memcmp(value, slot, data_size) == 0\<close>: whether the slot holds the value, when the slot
  has been written.
\<close>

definition memcmp_slot :: "'a cell \<Rightarrow> 'a \<Rightarrow> fault + bool" where
  "memcmp_slot c v = (case c of Indeterminate \<Rightarrow> Inl IndeterminateRead | Val x \<Rightarrow> Inr (x = v))"

section \<open>Construction\<close>

definition lds_new_vector :: "size_t \<Rightarrow> size_t \<Rightarrow> bool \<Rightarrow> 'a LinearDS option" where
  "lds_new_vector initial_capacity dsz mem_ok =
     (if \<not> mem_ok then None
      else Some \<lparr> vector = malloc_slots initial_capacity dsz,
                  head = 0, tail = 0, list_first = None, list_last = None,
                  size' = 0, capacity = initial_capacity, data_size = dsz,
                  type' = LDS_VECTOR,
                  it_position = 0, it_current = None, it_previous = None,
                  heap = Map.empty \<rparr>)"

text \<open>
  \<open>lds_new_list\<close> never assigns \<open>capacity\<close>: the field keeps what \<open>malloc\<close> left there,
  the parameter \<open>uninit\<close>.
\<close>

definition lds_new_list :: "size_t \<Rightarrow> bool \<Rightarrow> size_t \<Rightarrow> 'a LinearDS option" where
  "lds_new_list dsz mem_ok uninit =
     (if \<not> mem_ok then None
      else Some \<lparr> vector = [], head = 0, tail = 0, list_first = None, list_last = None,
                  size' = 0, capacity = uninit, data_size = dsz,
                  type' = LDS_LINKED_LIST,
                  it_position = 0, it_current = None, it_previous = None,
                  heap = Map.empty \<rparr>)"

section \<open>The vector strategy\<close>

text \<open>
  \<open>insert_element_in_vector\<close>, first block (\<open>if (ds->size == ds->capacity) { ... }\<close>):
  the result is \<open>None\<close> when \<open>realloc\<close> fails.
\<close>

definition insert_element_in_vector_grow :: "'a LinearDS \<Rightarrow> bool \<Rightarrow> fault + 'a LinearDS option" where
  "insert_element_in_vector_grow ds realloc_ok =
     (let new_capacity = (if capacity ds > 0 then capacity ds * 2 else 1) in
      if \<not> realloc_ok then Inr None
      else
        let new_vector = realloc_slots (vector ds) new_capacity in
        bind_res
          (if head ds \<ge> tail ds
           then bind_res (memmove_slots new_vector (capacity ds) 0 (tail ds))
                  (\<lambda>nv. Inr (nv, capacity ds + tail ds))
           else Inr (new_vector, tail ds))
          (\<lambda>(nv, t). Inr (Some (ds\<lparr>vector := nv, tail := t, capacity := new_capacity\<rparr>))))"

text \<open>Second block: the three cases of the position, up to \<open>ds->size++\<close>.\<close>

definition insert_element_in_vector_place :: "'a LinearDS \<Rightarrow> size_t \<Rightarrow> 'a \<Rightarrow> fault + 'a LinearDS" where
  "insert_element_in_vector_place ds position v =
     (if position = size' ds then
        bind_res (store_slot (vector ds) (tail ds) (Val v)) (\<lambda>buf.
        bind_res (mod_sz (tail ds + 1) (capacity ds)) (\<lambda>t.
          Inr (ds\<lparr>vector := buf, tail := t\<rparr>)))
      else if position = 0 then
        bind_res (mod_sz (head ds - 1 + capacity ds) (capacity ds)) (\<lambda>h.
        bind_res (store_slot (vector ds) h (Val v)) (\<lambda>buf.
          Inr (ds\<lparr>vector := buf, head := h\<rparr>)))
      else
        bind_res (mod_sz (head ds + position) (capacity ds)) (\<lambda>index.
        let tl = tail ds in
        bind_res
          (if tl > index
           then memmove_slots (vector ds) (index + 1) index (tl - index)
           else
             bind_res (memmove_slots (vector ds) 1 0 tl) (\<lambda>b1.
             bind_res (memmove_slots b1 0 (capacity ds - 1) 1) (\<lambda>b2.
               memmove_slots b2 (index + 1) index (capacity ds - index - 1))))
          (\<lambda>b.
        bind_res (store_slot b index (Val v)) (\<lambda>b'.
        bind_res (mod_sz (tail ds + 1) (capacity ds)) (\<lambda>t.
          Inr (ds\<lparr>vector := b', tail := t\<rparr>))))))"

definition insert_element_in_vector ::
  "'a LinearDS \<Rightarrow> size_t \<Rightarrow> 'a \<Rightarrow> bool \<Rightarrow> fault + (lds_return_t \<times> 'a LinearDS)" where
  "insert_element_in_vector ds position v realloc_ok =
     (let place = (\<lambda>d. bind_res (insert_element_in_vector_place d position v)
                          (\<lambda>d'. Inr (LDS_SUCCESS, d'\<lparr>size' := size' d' + 1\<rparr>)))
      in if size' ds = capacity ds
         then bind_res (insert_element_in_vector_grow ds realloc_ok)
                (\<lambda>g. case g of None \<Rightarrow> Inr (LDS_FAIL, ds) | Some d \<Rightarrow> place d)
         else place ds)"

text \<open>
  The output pointer \<open>removed_element\<close> is the flag "not \<open>NULL\<close>"; the third component
  of the result is the cell stored through it, \<open>None\<close> when nothing is stored.
\<close>

definition remove_element_from_vector ::
  "'a LinearDS \<Rightarrow> size_t \<Rightarrow> bool \<Rightarrow> fault + (lds_return_t \<times> 'a LinearDS \<times> 'a cell option)" where
  "remove_element_from_vector ds position removed_element =
     bind_res
       (if removed_element
        then bind_res (mod_sz (head ds + position) (capacity ds)) (\<lambda>i.
             bind_res (load_slot (vector ds) i) (\<lambda>c. Inr (Some c)))
        else Inr None)
       (\<lambda>out.
     bind_res
       (if position = size' ds - 1 then
          bind_res (mod_sz (tail ds - 1 + capacity ds) (capacity ds)) (\<lambda>t. Inr (ds\<lparr>tail := t\<rparr>))
        else if position = 0 then
          bind_res (mod_sz (head ds + 1) (capacity ds)) (\<lambda>h. Inr (ds\<lparr>head := h\<rparr>))
        else
          bind_res (mod_sz (head ds + position) (capacity ds)) (\<lambda>index.
          let tl = tail ds in
          if tl > index then
            bind_res (memmove_slots (vector ds) index (index + 1) (tl - index - 1)) (\<lambda>b.
            bind_res (mod_sz (tail ds - 1 + capacity ds) (capacity ds)) (\<lambda>t.
              Inr (ds\<lparr>vector := b, tail := t\<rparr>)))
          else
            bind_res (memmove_slots (vector ds) (head ds + 1) (head ds) position) (\<lambda>b.
            bind_res (mod_sz (head ds + 1) (capacity ds)) (\<lambda>h.
              Inr (ds\<lparr>vector := b, head := h\<rparr>)))))
       (\<lambda>d. Inr (LDS_SUCCESS, d\<lparr>size' := size' d - 1\<rparr>, out)))"

definition get_element_from_vector ::
  "'a LinearDS \<Rightarrow> size_t \<Rightarrow> fault + (lds_return_t \<times> 'a LinearDS \<times> 'a cell option)" where
  "get_element_from_vector ds position =
     bind_res (mod_sz (head ds + position) (capacity ds)) (\<lambda>i.
     bind_res (load_slot (vector ds) i) (\<lambda>c. Inr (LDS_SUCCESS, ds, Some c)))"

definition set_element_in_vector ::
  "'a LinearDS \<Rightarrow> size_t \<Rightarrow> 'a \<Rightarrow> fault + (lds_return_t \<times> 'a LinearDS)" where
  "set_element_in_vector ds position v =
     bind_res (mod_sz (head ds + position) (capacity ds)) (\<lambda>i.
     bind_res (load_slot (vector ds) i) (\<lambda>c.
     bind_res (memcmp_slot c v) (\<lambda>same.
       if same then Inr (LDS_FAIL, ds)
       else bind_res (store_slot (vector ds) i (Val v)) (\<lambda>b. Inr (LDS_SUCCESS, ds\<lparr>vector := b\<rparr>)))))"

section \<open>The iterator of the list strategy\<close>

definition it_reset_in_list :: "'a LinearDS \<Rightarrow> lds_return_t \<times> 'a LinearDS" where
  "it_reset_in_list ds =
     (LDS_SUCCESS, ds\<lparr>it_position := 0, it_current := list_first ds, it_previous := None\<rparr>)"

text \<open>\<open>it->current->next\<close> dereferences \<open>it->current\<close>.\<close>

definition it_next_in_list :: "'a LinearDS \<Rightarrow> fault + (lds_return_t \<times> 'a LinearDS)" where
  "it_next_in_list ds =
     (case it_current ds of
        None \<Rightarrow> Inl NullDeref
      | Some c \<Rightarrow>
          (case heap ds c of
             None \<Rightarrow> Inl InvalidPointer
           | Some nd \<Rightarrow>
               Inr (LDS_SUCCESS,
                    ds\<lparr>it_position := it_position ds + 1,
                       it_previous := it_current ds,
                       it_current := node_next nd\<rparr>)))"

text \<open>The loop \<open>while (it->position < position) it_next_in_list(it);\<close> of \<open>it_go_in_list\<close>.\<close>

function it_go_in_list_loop :: "'a LinearDS \<Rightarrow> size_t \<Rightarrow> fault + 'a LinearDS" where
  "it_go_in_list_loop ds position =
     (if it_position ds < position
      then (case it_next_in_list ds of
              Inl e \<Rightarrow> Inl e
            | Inr (r, ds') \<Rightarrow> it_go_in_list_loop ds' position)
      else Inr ds)"
  by pat_completeness auto
termination
proof (relation "measure (\<lambda>(ds, position). unat position - unat (it_position ds))")
  show "wf (measure (\<lambda>(ds :: 'a LinearDS, position). unat position - unat (it_position ds)))"
    by simp
next
  fix ds :: "'a LinearDS" and position :: size_t and x2 :: "lds_return_t \<times> 'a LinearDS"
    and r ds'
  assume lt: "it_position ds < position" and nx: "it_next_in_list ds = Inr x2"
    and x2: "(r, ds') = x2"
  from nx x2 have p: "it_position ds' = it_position ds + 1"
    by (auto simp: it_next_in_list_def split: option.splits)
  from lt have l: "unat (it_position ds) < unat position"
    by (simp add: word_less_nat_alt)
  have "unat position < 2 ^ LENGTH(64)" by (rule unsigned_less)
  with l have "unat (it_position ds) + unat (1 :: size_t) < 2 ^ LENGTH(64)" by simp
  then have "unat (it_position ds + 1) = unat (it_position ds) + 1"
    by (simp add: unat_add_lem [THEN iffD1])
  with l show "((ds', position), (ds, position))
      \<in> measure (\<lambda>(ds, position). unat position - unat (it_position ds))"
    using p by simp
qed

declare it_go_in_list_loop.simps [simp del]

definition it_go_in_list :: "'a LinearDS \<Rightarrow> size_t \<Rightarrow> fault + (lds_return_t \<times> 'a LinearDS)" where
  "it_go_in_list ds position =
     (let ds1 = (if position < it_position ds then snd (it_reset_in_list ds) else ds)
      in bind_res (it_go_in_list_loop ds1 position) (\<lambda>d. Inr (LDS_SUCCESS, d)))"

text \<open>
  \<open>it_add_in_list\<close>: the two \<open>malloc\<close> calls are answered by \<open>mem\<close>; the new node is
  linked before \<open>it->current\<close>, and \<open>it->previous->next = new_node\<close> dereferences
  \<open>it->previous\<close>.
\<close>

definition it_add_in_list :: "'a LinearDS \<Rightarrow> 'a \<Rightarrow> alloc \<Rightarrow> fault + (lds_return_t \<times> 'a LinearDS)" where
  "it_add_in_list ds v mem =
     (case mem of
        NoMem \<Rightarrow> Inr (LDS_FAIL, ds)
      | Mem new_node \<Rightarrow>
          let h1 = (heap ds)(new_node \<mapsto> \<lparr>node_data = v, node_next = it_current ds\<rparr>) in
          bind_res
            (case it_previous ds of
               None \<Rightarrow> Inr h1
             | Some p \<Rightarrow>
                 (case h1 p of
                    None \<Rightarrow> Inl InvalidPointer
                  | Some pn \<Rightarrow> Inr (h1(p \<mapsto> pn\<lparr>node_next := Some new_node\<rparr>))))
            (\<lambda>h2.
               let ds1 = ds\<lparr>heap := h2, it_current := Some new_node\<rparr>;
                   ds2 = (if it_position ds1 = 0 then ds1\<lparr>list_first := Some new_node\<rparr> else ds1);
                   ds3 = (if it_position ds2 = size' ds2 then ds2\<lparr>list_last := Some new_node\<rparr>
                          else ds2)
               in Inr (LDS_SUCCESS, ds3\<lparr>size' := size' ds3 + 1\<rparr>)))"

definition it_get_from_list ::
  "'a LinearDS \<Rightarrow> fault + (lds_return_t \<times> 'a LinearDS \<times> 'a cell option)" where
  "it_get_from_list ds =
     (if it_position ds \<ge> size' ds then Inr (LDS_POS_ERR, ds, None)
      else
        (case it_current ds of
           None \<Rightarrow> Inl NullDeref
         | Some c \<Rightarrow>
             (case heap ds c of
                None \<Rightarrow> Inl InvalidPointer
              | Some nd \<Rightarrow> Inr (LDS_SUCCESS, ds, Some (Val (node_data nd))))))"

text \<open>
  \<open>it_remove_from_list\<close>: \<open>free(removed)\<close> takes the node out of the live nodes.
\<close>

definition it_remove_from_list ::
  "'a LinearDS \<Rightarrow> bool \<Rightarrow> fault + (lds_return_t \<times> 'a LinearDS \<times> 'a cell option)" where
  "it_remove_from_list ds removed_element =
     (case it_current ds of
        None \<Rightarrow> Inr (LDS_POS_ERR, ds, None)
      | Some removed \<Rightarrow>
          (case heap ds removed of
             None \<Rightarrow> Inl InvalidPointer
           | Some rn \<Rightarrow>
               let cur = node_next rn in
               bind_res
                 (case it_previous ds of
                    None \<Rightarrow> Inr (heap ds)
                  | Some p \<Rightarrow>
                      (case heap ds p of
                         None \<Rightarrow> Inl InvalidPointer
                       | Some pn \<Rightarrow> Inr ((heap ds)(p \<mapsto> pn\<lparr>node_next := cur\<rparr>))))
                 (\<lambda>h1.
                    let first1 = (if list_first ds = Some removed then cur else list_first ds);
                        last1 = (if list_last ds = Some removed then it_previous ds
                                 else list_last ds);
                        out = (if removed_element then Some (Val (node_data rn)) else None)
                    in Inr (LDS_SUCCESS,
                            ds\<lparr>heap := h1(removed := None), it_current := cur,
                               list_first := first1, list_last := last1,
                               size' := size' ds - 1\<rparr>,
                            out))))"

definition it_set_in_list :: "'a LinearDS \<Rightarrow> 'a \<Rightarrow> fault + (lds_return_t \<times> 'a LinearDS)" where
  "it_set_in_list ds v =
     (case it_current ds of
        None \<Rightarrow> Inl NullDeref
      | Some c \<Rightarrow>
          (case heap ds c of
             None \<Rightarrow> Inl InvalidPointer
           | Some nd \<Rightarrow>
               if node_data nd = v then Inr (LDS_FAIL, ds)
               else Inr (LDS_SUCCESS, ds\<lparr>heap := (heap ds)(c \<mapsto> nd\<lparr>node_data := v\<rparr>)\<rparr>)))"

section \<open>The list strategy\<close>

definition insert_element_in_list ::
  "'a LinearDS \<Rightarrow> size_t \<Rightarrow> 'a \<Rightarrow> alloc \<Rightarrow> fault + (lds_return_t \<times> 'a LinearDS)" where
  "insert_element_in_list ds position v mem =
     bind_res (it_go_in_list ds position) (\<lambda>(r, d).
       if r = LDS_SUCCESS then it_add_in_list d v mem else Inr (r, d))"

definition remove_element_from_list ::
  "'a LinearDS \<Rightarrow> size_t \<Rightarrow> bool \<Rightarrow> fault + (lds_return_t \<times> 'a LinearDS \<times> 'a cell option)" where
  "remove_element_from_list ds position removed_element =
     bind_res (it_go_in_list ds position) (\<lambda>(r, d).
       if r = LDS_SUCCESS then it_remove_from_list d removed_element else Inr (r, d, None))"

definition get_element_from_list ::
  "'a LinearDS \<Rightarrow> size_t \<Rightarrow> fault + (lds_return_t \<times> 'a LinearDS \<times> 'a cell option)" where
  "get_element_from_list ds position =
     bind_res (it_go_in_list ds position) (\<lambda>(r, d).
       if r = LDS_SUCCESS then it_get_from_list d else Inr (r, d, None))"

definition set_element_in_list ::
  "'a LinearDS \<Rightarrow> size_t \<Rightarrow> 'a \<Rightarrow> fault + (lds_return_t \<times> 'a LinearDS)" where
  "set_element_in_list ds position v =
     bind_res (it_go_in_list ds position) (\<lambda>(r, d).
       if r = LDS_SUCCESS then it_set_in_list d v else Inr (r, d))"

section \<open>The iterator of the vector strategy\<close>

definition it_add_in_vector :: "'a LinearDS \<Rightarrow> 'a \<Rightarrow> bool \<Rightarrow> fault + (lds_return_t \<times> 'a LinearDS)" where
  "it_add_in_vector ds v realloc_ok = insert_element_in_vector ds (it_position ds) v realloc_ok"

definition it_next_in_vector :: "'a LinearDS \<Rightarrow> lds_return_t \<times> 'a LinearDS" where
  "it_next_in_vector ds = (LDS_SUCCESS, ds\<lparr>it_position := it_position ds + 1\<rparr>)"

definition it_get_from_vector ::
  "'a LinearDS \<Rightarrow> fault + (lds_return_t \<times> 'a LinearDS \<times> 'a cell option)" where
  "it_get_from_vector ds = get_element_from_vector ds (it_position ds)"

definition it_remove_from_vector ::
  "'a LinearDS \<Rightarrow> bool \<Rightarrow> fault + (lds_return_t \<times> 'a LinearDS \<times> 'a cell option)" where
  "it_remove_from_vector ds removed_element =
     remove_element_from_vector ds (it_position ds) removed_element"

definition it_reset_in_vector :: "'a LinearDS \<Rightarrow> lds_return_t \<times> 'a LinearDS" where
  "it_reset_in_vector ds = (LDS_SUCCESS, ds\<lparr>it_position := 0\<rparr>)"

definition it_go_in_vector :: "'a LinearDS \<Rightarrow> size_t \<Rightarrow> lds_return_t \<times> 'a LinearDS" where
  "it_go_in_vector ds position = (LDS_SUCCESS, ds\<lparr>it_position := position\<rparr>)"

definition it_set_in_vector :: "'a LinearDS \<Rightarrow> 'a \<Rightarrow> fault + (lds_return_t \<times> 'a LinearDS)" where
  "it_set_in_vector ds v = set_element_in_vector ds (it_position ds) v"

section \<open>The public interface\<close>

text \<open>
  A \<open>LINEAR_DS *\<close> argument is \<open>None\<close> for \<open>NULL\<close> or the structure it points to, and the
  structure after the call is part of the result.  A \<open>void *value\<close> argument is \<open>None\<close>
  for \<open>NULL\<close> or the element it points to; an output pointer is the flag "not
  \<open>NULL\<close>".  An \<open>LDS_ITERATOR *\<close> is \<open>NULL\<close> or the iterator embedded in a structure, so
  it is modelled like a \<open>LINEAR_DS *\<close>.  \<open>print_debug\<close> only writes to the log and is
  left out.

  The calls through the function pointers \<open>ds->insert\<close>, \<open>ds->remove\<close>, \<open>ds->get\<close>,
  \<open>ds->set\<close> and \<open>it->add\<close>, ..., \<open>it->go\<close>:
\<close>

definition call_insert ::
  "'a LinearDS \<Rightarrow> size_t \<Rightarrow> 'a \<Rightarrow> alloc \<Rightarrow> fault + (lds_return_t \<times> 'a LinearDS)" where
  "call_insert d position v mem =
     (case type' d of
        LDS_VECTOR \<Rightarrow> insert_element_in_vector d position v (mem \<noteq> NoMem)
      | LDS_LINKED_LIST \<Rightarrow> insert_element_in_list d position v mem
      | LDS_UNKNOWN \<Rightarrow> Inl InvalidPointer)"

definition call_remove ::
  "'a LinearDS \<Rightarrow> size_t \<Rightarrow> bool \<Rightarrow> fault + (lds_return_t \<times> 'a LinearDS \<times> 'a cell option)" where
  "call_remove d position removed_element =
     (case type' d of
        LDS_VECTOR \<Rightarrow> remove_element_from_vector d position removed_element
      | LDS_LINKED_LIST \<Rightarrow> remove_element_from_list d position removed_element
      | LDS_UNKNOWN \<Rightarrow> Inl InvalidPointer)"

definition call_get ::
  "'a LinearDS \<Rightarrow> size_t \<Rightarrow> fault + (lds_return_t \<times> 'a LinearDS \<times> 'a cell option)" where
  "call_get d position =
     (case type' d of
        LDS_VECTOR \<Rightarrow> get_element_from_vector d position
      | LDS_LINKED_LIST \<Rightarrow> get_element_from_list d position
      | LDS_UNKNOWN \<Rightarrow> Inl InvalidPointer)"

definition call_set ::
  "'a LinearDS \<Rightarrow> size_t \<Rightarrow> 'a \<Rightarrow> fault + (lds_return_t \<times> 'a LinearDS)" where
  "call_set d position v =
     (case type' d of
        LDS_VECTOR \<Rightarrow> set_element_in_vector d position v
      | LDS_LINKED_LIST \<Rightarrow> set_element_in_list d position v
      | LDS_UNKNOWN \<Rightarrow> Inl InvalidPointer)"

definition call_it_add :: "'a LinearDS \<Rightarrow> 'a \<Rightarrow> alloc \<Rightarrow> fault + (lds_return_t \<times> 'a LinearDS)" where
  "call_it_add d v mem =
     (case type' d of
        LDS_VECTOR \<Rightarrow> it_add_in_vector d v (mem \<noteq> NoMem)
      | LDS_LINKED_LIST \<Rightarrow> it_add_in_list d v mem
      | LDS_UNKNOWN \<Rightarrow> Inl InvalidPointer)"

definition call_it_next :: "'a LinearDS \<Rightarrow> fault + (lds_return_t \<times> 'a LinearDS)" where
  "call_it_next d =
     (case type' d of
        LDS_VECTOR \<Rightarrow> Inr (it_next_in_vector d)
      | LDS_LINKED_LIST \<Rightarrow> it_next_in_list d
      | LDS_UNKNOWN \<Rightarrow> Inl InvalidPointer)"

definition call_it_get ::
  "'a LinearDS \<Rightarrow> fault + (lds_return_t \<times> 'a LinearDS \<times> 'a cell option)" where
  "call_it_get d =
     (case type' d of
        LDS_VECTOR \<Rightarrow> it_get_from_vector d
      | LDS_LINKED_LIST \<Rightarrow> it_get_from_list d
      | LDS_UNKNOWN \<Rightarrow> Inl InvalidPointer)"

definition call_it_set :: "'a LinearDS \<Rightarrow> 'a \<Rightarrow> fault + (lds_return_t \<times> 'a LinearDS)" where
  "call_it_set d v =
     (case type' d of
        LDS_VECTOR \<Rightarrow> it_set_in_vector d v
      | LDS_LINKED_LIST \<Rightarrow> it_set_in_list d v
      | LDS_UNKNOWN \<Rightarrow> Inl InvalidPointer)"

definition call_it_remove ::
  "'a LinearDS \<Rightarrow> bool \<Rightarrow> fault + (lds_return_t \<times> 'a LinearDS \<times> 'a cell option)" where
  "call_it_remove d removed_element =
     (case type' d of
        LDS_VECTOR \<Rightarrow> it_remove_from_vector d removed_element
      | LDS_LINKED_LIST \<Rightarrow> it_remove_from_list d removed_element
      | LDS_UNKNOWN \<Rightarrow> Inl InvalidPointer)"

definition call_it_reset :: "'a LinearDS \<Rightarrow> fault + (lds_return_t \<times> 'a LinearDS)" where
  "call_it_reset d =
     (case type' d of
        LDS_VECTOR \<Rightarrow> Inr (it_reset_in_vector d)
      | LDS_LINKED_LIST \<Rightarrow> Inr (it_reset_in_list d)
      | LDS_UNKNOWN \<Rightarrow> Inl InvalidPointer)"

definition call_it_go :: "'a LinearDS \<Rightarrow> size_t \<Rightarrow> fault + (lds_return_t \<times> 'a LinearDS)" where
  "call_it_go d position =
     (case type' d of
        LDS_VECTOR \<Rightarrow> Inr (it_go_in_vector d position)
      | LDS_LINKED_LIST \<Rightarrow> it_go_in_list d position
      | LDS_UNKNOWN \<Rightarrow> Inl InvalidPointer)"

text \<open>The result of a call on a structure, as a result on the pointer to it.\<close>

definition on_ptr ::
  "fault + (lds_return_t \<times> 'a LinearDS) \<Rightarrow> fault + (lds_return_t \<times> 'a LinearDS option)" where
  "on_ptr m = bind_res m (\<lambda>(r, d). Inr (r, Some d))"

definition on_ptr_out ::
  "fault + (lds_return_t \<times> 'a LinearDS \<times> 'a cell option)
   \<Rightarrow> fault + (lds_return_t \<times> 'a LinearDS option \<times> 'a cell option)" where
  "on_ptr_out m = bind_res m (\<lambda>(r, d, out). Inr (r, Some d, out))"

definition lds_insert ::
  "'a LinearDS option \<Rightarrow> size_t \<Rightarrow> 'a option \<Rightarrow> alloc
   \<Rightarrow> fault + (lds_return_t \<times> 'a LinearDS option)" where
  "lds_insert ds position val mem =
     (case ds of
        None \<Rightarrow> Inr (LDS_NULL, ds)
      | Some d \<Rightarrow>
          (case val of
             None \<Rightarrow> Inr (LDS_NULL, ds)
           | Some v \<Rightarrow>
               if position > size' d \<or> position < 0 then Inr (LDS_POS_ERR, ds)
               else on_ptr (call_insert d position v mem)))"

text \<open>
  \<open>return lds_insert(ds, ds->size, value);\<close> evaluates the argument \<open>ds->size\<close> before
  \<open>lds_insert\<close> tests \<open>ds\<close>.
\<close>

definition lds_insert_last ::
  "'a LinearDS option \<Rightarrow> 'a option \<Rightarrow> alloc \<Rightarrow> fault + (lds_return_t \<times> 'a LinearDS option)" where
  "lds_insert_last ds val mem =
     (case ds of
        None \<Rightarrow> Inl NullDeref
      | Some d \<Rightarrow> lds_insert ds (size' d) val mem)"

definition lds_get ::
  "'a LinearDS option \<Rightarrow> size_t \<Rightarrow> bool
   \<Rightarrow> fault + (lds_return_t \<times> 'a LinearDS option \<times> 'a cell option)" where
  "lds_get ds position element =
     (case ds of
        None \<Rightarrow> Inr (LDS_NULL, ds, None)
      | Some d \<Rightarrow>
          if \<not> element then Inr (LDS_NULL, ds, None)
          else if position \<ge> size' d \<or> position < 0 then Inr (LDS_POS_ERR, ds, None)
          else on_ptr_out (call_get d position))"

definition lds_set ::
  "'a LinearDS option \<Rightarrow> size_t \<Rightarrow> 'a option \<Rightarrow> fault + (lds_return_t \<times> 'a LinearDS option)" where
  "lds_set ds position val =
     (case ds of
        None \<Rightarrow> Inr (LDS_NULL, ds)
      | Some d \<Rightarrow>
          (case val of
             None \<Rightarrow> Inr (LDS_NULL, ds)
           | Some v \<Rightarrow>
               if position \<ge> size' d \<or> position < 0 then Inr (LDS_POS_ERR, ds)
               else on_ptr (call_set d position v)))"

definition lds_remove ::
  "'a LinearDS option \<Rightarrow> size_t \<Rightarrow> bool
   \<Rightarrow> fault + (lds_return_t \<times> 'a LinearDS option \<times> 'a cell option)" where
  "lds_remove ds position removed_element =
     (case ds of
        None \<Rightarrow> Inr (LDS_NULL, ds, None)
      | Some d \<Rightarrow>
          if position \<ge> size' d \<or> position < 0 then Inr (LDS_POS_ERR, ds, None)
          else on_ptr_out (call_remove d position removed_element))"

definition lds_remove_last ::
  "'a LinearDS option \<Rightarrow> bool
   \<Rightarrow> fault + (lds_return_t \<times> 'a LinearDS option \<times> 'a cell option)" where
  "lds_remove_last ds removed_element =
     (case ds of
        None \<Rightarrow> Inr (LDS_NULL, ds, None)
      | Some d \<Rightarrow> on_ptr_out (call_remove d (size' d - 1) removed_element))"

definition lds_size :: "'a LinearDS option \<Rightarrow> size_t" where
  "lds_size ds = (case ds of None \<Rightarrow> 0 | Some d \<Rightarrow> size' d)"

definition lds_empty :: "'a LinearDS option \<Rightarrow> bool" where
  "lds_empty ds = (case ds of None \<Rightarrow> False | Some d \<Rightarrow> size' d = 0)"

text \<open>
  \<open>return (ds != NULL || ds->type == LDS_VECTOR) ? ds->capacity : 0;\<close>: the right
  operand of \<open>||\<close> is evaluated only when \<open>ds\<close> is \<open>NULL\<close>.
\<close>

definition lds_capacity :: "'a LinearDS option \<Rightarrow> fault + size_t" where
  "lds_capacity ds =
     bind_res
       (if ds \<noteq> None then Inr True
        else (case ds of None \<Rightarrow> Inl NullDeref | Some d \<Rightarrow> Inr (type' d = LDS_VECTOR)))
       (\<lambda>c. if c then (case ds of None \<Rightarrow> Inl NullDeref | Some d \<Rightarrow> Inr (capacity d))
            else Inr 0)"

definition lds_data_size :: "'a LinearDS option \<Rightarrow> size_t" where
  "lds_data_size ds = (case ds of None \<Rightarrow> 0 | Some d \<Rightarrow> data_size d)"

definition lds_type :: "'a LinearDS option \<Rightarrow> lds_type_t" where
  "lds_type ds = (case ds of None \<Rightarrow> LDS_UNKNOWN | Some d \<Rightarrow> type' d)"

definition lds_it_position :: "'a LinearDS option \<Rightarrow> fault + size_t" where
  "lds_it_position it = (case it of None \<Rightarrow> Inl NullDeref | Some d \<Rightarrow> Inr (it_position d))"

definition lds_it_add ::
  "'a LinearDS option \<Rightarrow> 'a option \<Rightarrow> alloc \<Rightarrow> fault + (lds_return_t \<times> 'a LinearDS option)" where
  "lds_it_add it val mem =
     (case it of
        None \<Rightarrow> Inr (LDS_NULL, it)
      | Some d \<Rightarrow>
          (case val of
             None \<Rightarrow> Inr (LDS_NULL, it)
           | Some v \<Rightarrow> on_ptr (call_it_add d v mem)))"

definition lds_it_next :: "'a LinearDS option \<Rightarrow> fault + (lds_return_t \<times> 'a LinearDS option)" where
  "lds_it_next it =
     (case it of
        None \<Rightarrow> Inr (LDS_NULL, it)
      | Some d \<Rightarrow>
          if it_position d = size' d then Inr (LDS_POS_ERR, it)
          else on_ptr (call_it_next d))"

definition lds_it_has_next :: "'a LinearDS option \<Rightarrow> lds_return_t" where
  "lds_it_has_next it =
     (case it of
        None \<Rightarrow> LDS_NULL
      | Some d \<Rightarrow> if it_position d < size' d then LDS_SUCCESS else LDS_FAIL)"

definition lds_it_get ::
  "'a LinearDS option \<Rightarrow> bool \<Rightarrow> fault + (lds_return_t \<times> 'a LinearDS option \<times> 'a cell option)" where
  "lds_it_get it element =
     (case it of
        None \<Rightarrow> Inr (LDS_NULL, it, None)
      | Some d \<Rightarrow>
          if \<not> element then Inr (LDS_NULL, it, None)
          else if it_position d = size' d then Inr (LDS_POS_ERR, it, None)
          else on_ptr_out (call_it_get d))"

definition lds_it_set ::
  "'a LinearDS option \<Rightarrow> 'a option \<Rightarrow> fault + (lds_return_t \<times> 'a LinearDS option)" where
  "lds_it_set it val =
     (case it of
        None \<Rightarrow> Inr (LDS_NULL, it)
      | Some d \<Rightarrow>
          (case val of
             None \<Rightarrow> Inr (LDS_NULL, it)
           | Some v \<Rightarrow>
               if it_position d = size' d then Inr (LDS_POS_ERR, it)
               else on_ptr (call_it_set d v)))"

definition lds_it_remove ::
  "'a LinearDS option \<Rightarrow> bool \<Rightarrow> fault + (lds_return_t \<times> 'a LinearDS option \<times> 'a cell option)" where
  "lds_it_remove it removed_element =
     (case it of
        None \<Rightarrow> Inr (LDS_NULL, it, None)
      | Some d \<Rightarrow>
          if it_position d = size' d then Inr (LDS_POS_ERR, it, None)
          else on_ptr_out (call_it_remove d removed_element))"

definition lds_it_reset :: "'a LinearDS option \<Rightarrow> fault + (lds_return_t \<times> 'a LinearDS option)" where
  "lds_it_reset it =
     (case it of
        None \<Rightarrow> Inr (LDS_NULL, it)
      | Some d \<Rightarrow> on_ptr (call_it_reset d))"

definition lds_it_go ::
  "'a LinearDS option \<Rightarrow> size_t \<Rightarrow> fault + (lds_return_t \<times> 'a LinearDS option)" where
  "lds_it_go it pos =
     (case it of
        None \<Rightarrow> Inr (LDS_NULL, it)
      | Some d \<Rightarrow>
          if pos > size' d then Inr (LDS_POS_ERR, it)
          else on_ptr (call_it_go d pos))"

section \<open>Logical contents and well-formed structures\<close>

text \<open>
  The logical sequence of a vector: position \<open>j\<close> is the slot \<open>(head + j) mod capacity\<close>,
  as \<open>get_element_from_vector\<close> and \<open>print_debug\<close> read it.
\<close>

definition ring :: "'c list \<Rightarrow> nat \<Rightarrow> nat \<Rightarrow> 'c list" where
  "ring buf H N = map (\<lambda>j. buf ! ((H + j) mod length buf)) [0..<N]"

definition vec_contents :: "'a LinearDS \<Rightarrow> 'a cell list" where
  "vec_contents ds = ring (vector ds) (unat (head ds)) (unat (size' ds))"

text \<open>
  A well-formed vector: the buffer has \<open>capacity\<close> slots, \<open>head\<close> is a slot of it, \<open>tail\<close>
  is \<open>size\<close> slots after \<open>head\<close> around the ring, and the capacity is at most \<open>2^63\<close>
  slots, so that no index computation wraps in \<open>size_t\<close>.
\<close>

definition vec_inv :: "'a LinearDS \<Rightarrow> bool" where
  "vec_inv ds \<longleftrightarrow>
     type' ds = LDS_VECTOR \<and>
     length (vector ds) = unat (capacity ds) \<and>
     unat (size' ds) \<le> unat (capacity ds) \<and>
     unat (capacity ds) \<le> 2 ^ 63 \<and>
     (unat (head ds) < unat (capacity ds) \<or> capacity ds = 0 \<and> head ds = 0) \<and>
     unat (tail ds) = (unat (head ds) + unat (size' ds)) mod unat (capacity ds)"

text \<open>
  The logical sequence of a list: the elements of the first \<open>size\<close> nodes from \<open>first\<close>,
  as \<open>print_debug\<close> walks them.
\<close>

fun chain_data :: "(addr \<rightharpoonup> 'a Node) \<Rightarrow> addr option \<Rightarrow> nat \<Rightarrow> 'a cell list" where
  "chain_data h p 0 = []"
| "chain_data h p (Suc n) =
     (case p of
        None \<Rightarrow> []
      | Some a \<Rightarrow>
          (case h a of
             None \<Rightarrow> []
           | Some nd \<Rightarrow> Val (node_data nd) # chain_data h (node_next nd) n))"

definition list_contents :: "'a LinearDS \<Rightarrow> 'a cell list" where
  "list_contents ds = chain_data (heap ds) (list_first ds) (unat (size' ds))"

text \<open>
  \<open>seg h p as q\<close>: following \<open>next\<close> from the pointer \<open>p\<close> visits the live nodes \<open>as\<close> in
  this order and arrives at the pointer \<open>q\<close>.
\<close>

fun seg :: "(addr \<rightharpoonup> 'a Node) \<Rightarrow> addr option \<Rightarrow> addr list \<Rightarrow> addr option \<Rightarrow> bool" where
  "seg h p [] q = (p = q)"
| "seg h p (a # as) q =
     (p = Some a \<and> (case h a of None \<Rightarrow> False | Some nd \<Rightarrow> seg h (node_next nd) as q))"

definition ptr_at :: "addr list \<Rightarrow> nat \<Rightarrow> addr option" where
  "ptr_at as i = (if i < length as then Some (as ! i) else None)"

definition ptr_before :: "addr list \<Rightarrow> nat \<Rightarrow> addr option" where
  "ptr_before as i = (if i = 0 then None else ptr_at as (i - 1))"

text \<open>
  A well-formed list with the nodes \<open>as\<close>: the chain from \<open>first\<close> is \<open>as\<close> and ends with
  \<open>NULL\<close>, it has \<open>size\<close> nodes, \<open>last\<close> is its last node, and the iterator is
  synchronised: \<open>position \<le> size\<close>, \<open>current\<close> is the node at \<open>position\<close> (\<open>NULL\<close> after the
  last) and \<open>previous\<close> is the node before it (\<open>NULL\<close> at position 0).
\<close>

definition list_inv_on :: "addr list \<Rightarrow> 'a LinearDS \<Rightarrow> bool" where
  "list_inv_on as ds \<longleftrightarrow>
     type' ds = LDS_LINKED_LIST \<and>
     seg (heap ds) (list_first ds) as None \<and>
     distinct as \<and>
     length as = unat (size' ds) \<and>
     list_last ds = ptr_before as (length as) \<and>
     unat (it_position ds) \<le> length as \<and>
     it_current ds = ptr_at as (unat (it_position ds)) \<and>
     it_previous ds = ptr_before as (unat (it_position ds))"

definition list_inv :: "'a LinearDS \<Rightarrow> bool" where
  "list_inv ds \<longleftrightarrow> (\<exists>as. list_inv_on as ds)"

definition contents :: "'a LinearDS \<Rightarrow> 'a cell list" where
  "contents ds =
     (case type' ds of
        LDS_VECTOR \<Rightarrow> vec_contents ds
      | LDS_LINKED_LIST \<Rightarrow> list_contents ds
      | LDS_UNKNOWN \<Rightarrow> [])"

definition ds_inv :: "'a LinearDS \<Rightarrow> bool" where
  "ds_inv ds \<longleftrightarrow>
     (case type' ds of
        LDS_VECTOR \<Rightarrow> vec_inv ds
      | LDS_LINKED_LIST \<Rightarrow> list_inv ds
      | LDS_UNKNOWN \<Rightarrow> False)"

section \<open>Auxiliary notions of the proofs\<close>


definition node_val :: "(addr \<rightharpoonup> 'a Node) \<Rightarrow> addr \<Rightarrow> 'a cell" where
  "node_val h a = (case h a of None \<Rightarrow> Indeterminate | Some nd \<Rightarrow> Val (node_data nd))"

definition node_vals :: "(addr \<rightharpoonup> 'a Node) \<Rightarrow> addr list \<Rightarrow> 'a cell list" where
  "node_vals h as = map (node_val h) as"

definition cursor_at :: "addr list \<Rightarrow> 'a LinearDS \<Rightarrow> size_t \<Rightarrow> 'a LinearDS" where
  "cursor_at as ds k =
     ds\<lparr>it_position := k, it_current := ptr_at as (unat k), it_previous := ptr_before as (unat k)\<rparr>"

section \<open>Sequences of calls and the reference sequence\<close>

text \<open>
  A call of the direct interface that changes the container, with what the caller and the
  allocator supply: the position, the element, the answer of the allocator, and whether
  \<open>lds_remove\<close> gets an output pointer.
\<close>

datatype 'a lds_call = Insert size_t 'a alloc | Remove size_t bool | Set size_t 'a

text \<open>
  The reference ordered sequence, the \<open>std::vector\<close> of the test driver: \<open>insert\<close> before
  a position, \<open>erase\<close> and assignment.
\<close>

fun ref_step :: "'a list \<Rightarrow> 'a lds_call \<Rightarrow> 'a list" where
  "ref_step xs (Insert p v m) = take (unat p) xs @ v # drop (unat p) xs"
| "ref_step xs (Remove p out) = take (unat p) xs @ drop (Suc (unat p)) xs"
| "ref_step xs (Set p v) = xs[unat p := v]"

fun ref_exec :: "'a list \<Rightarrow> 'a lds_call list \<Rightarrow> 'a list list" where
  "ref_exec xs [] = []"
| "ref_exec xs (c # cs) = ref_step xs c # ref_exec (ref_step xs c) cs"

text \<open>One call on a container, and the containers after every call of a sequence.\<close>

definition lds_step :: "'a LinearDS \<Rightarrow> 'a lds_call \<Rightarrow> fault + (lds_return_t \<times> 'a LinearDS)" where
  "lds_step ds c =
     bind_res
       (case c of
          Insert p v m \<Rightarrow> lds_insert (Some ds) p (Some v) m
        | Remove p out \<Rightarrow> bind_res (lds_remove (Some ds) p out) (\<lambda>(r, d, e). Inr (r, d))
        | Set p v \<Rightarrow> lds_set (Some ds) p (Some v))
       (\<lambda>(r, d). Inr (r, case d of None \<Rightarrow> ds | Some d' \<Rightarrow> d'))"

fun exec :: "'a LinearDS \<Rightarrow> 'a lds_call list \<Rightarrow> fault + 'a LinearDS list" where
  "exec ds [] = Inr []"
| "exec ds (c # cs) =
     bind_res (lds_step ds c) (\<lambda>(r, d).
     bind_res (exec d cs) (\<lambda>tr. Inr (d # tr)))"

text \<open>
  The allocator can serve an insertion: a vector that is full gets its \<open>realloc\<close> and
  its capacity can double without overflow of \<open>size_t\<close>; a list gets a node at an
  address that is not the address of a live node, and its size can grow by one.
\<close>

definition alloc_ok :: "'a LinearDS \<Rightarrow> alloc \<Rightarrow> bool" where
  "alloc_ok ds mem =
     (case type' ds of
        LDS_VECTOR \<Rightarrow> size' ds \<noteq> capacity ds \<or> mem \<noteq> NoMem \<and> unat (capacity ds) \<le> 2 ^ 62
      | LDS_LINKED_LIST \<Rightarrow>
          (case mem of NoMem \<Rightarrow> False | Mem a \<Rightarrow> heap ds a = None) \<and>
          unat (size' ds) < 2 ^ 64 - 1
      | LDS_UNKNOWN \<Rightarrow> False)"

text \<open>The arguments of a call are valid for a container, and of every call of a sequence.\<close>

fun call_ok :: "'a LinearDS \<Rightarrow> 'a lds_call \<Rightarrow> bool" where
  "call_ok ds (Insert p v m) = (p \<le> size' ds \<and> alloc_ok ds m)"
| "call_ok ds (Remove p out) = (p < size' ds)"
| "call_ok ds (Set p v) = (p < size' ds)"

fun calls_ok :: "'a LinearDS \<Rightarrow> 'a lds_call list \<Rightarrow> bool" where
  "calls_ok ds [] = True"
| "calls_ok ds (c # cs) =
     (call_ok ds c \<and>
      (case lds_step ds c of Inl e \<Rightarrow> True | Inr (r, d) \<Rightarrow> calls_ok d cs))"

section \<open>Example containers\<close>

text \<open>
  \<open>vec0\<close> is the vector \<open>lds_new_vector(2, 4)\<close> returns; \<open>vec_full\<close> is that vector after
  10 was inserted at position 0 and then 20 at position 0 (the sequence 20, 10, the
  buffer full); \<open>vec_wrapped\<close> holds the sequence 10, 20, 30 in the slots 2, 3, 0 of a
  buffer of 4 slots.
\<close>

definition vec0 :: "nat LinearDS" where
  "vec0 = \<lparr> vector = [Indeterminate, Indeterminate],
             head = 0, tail = 0, list_first = None, list_last = None,
             size' = 0, capacity = 2, data_size = 4, type' = LDS_VECTOR,
             it_position = 0, it_current = None, it_previous = None,
             heap = Map.empty \<rparr>"

definition vec_full :: "nat LinearDS" where
  "vec_full = vec0\<lparr>vector := [Val 10, Val 20], head := 1, tail := 1, size' := 2\<rparr>"

definition vec_wrapped :: "nat LinearDS" where
  "vec_wrapped = vec0\<lparr>vector := [Val 30, Indeterminate, Val 10, Val 20],
                     head := 2, tail := 1, size' := 3, capacity := 4\<rparr>"

text \<open>
  \<open>list2\<close> is a list of the two nodes 5 and 7 with the elements 10 and 20, its iterator
  after the last element.
\<close>

definition list2 :: "nat LinearDS" where
  "list2 = \<lparr> vector = [], head = 0, tail = 0,
              list_first = Some 5, list_last = Some 7,
              size' = 2, capacity = 0, data_size = 4, type' = LDS_LINKED_LIST,
              it_position = 2, it_current = None, it_previous = Some 7,
              heap = [5 \<mapsto> \<lparr>node_data = 10, node_next = Some 7\<rparr>,
                      7 \<mapsto> \<lparr>node_data = 20, node_next = None\<rparr>] \<rparr>"

section \<open>Moving slots and the ring of a buffer\<close>


lemma length_move_slots: "d + n \<le> length buf \<Longrightarrow> s + n \<le> length buf \<Longrightarrow> length (move_slots buf d s n) = length buf"
  by (simp add: move_slots_def)

lemma nth_move_slots_out:
  assumes "d + n \<le> length buf" "s + n \<le> length buf" "i < length buf" "i < d \<or> d + n \<le> i"
  shows "move_slots buf d s n ! i = buf ! i"
proof (cases "i < d")
  case True
  then show ?thesis using assms by (simp add: move_slots_def nth_append)
next
  case False
  with assms have *: "d + n \<le> i" by simp
  then have a: "\<not> i < d" "\<not> i - d < n" "i - d - n + (d + n) = i" by arith+
  have l: "length (take d buf) = d" "length (take n (drop s buf)) = n"
    using assms by simp_all
  show ?thesis
    unfolding move_slots_def nth_append l using a assms by simp
qed

lemma nth_move_slots_in:
  assumes "d + n \<le> length buf" "s + n \<le> length buf" "d \<le> i" "i < d + n"
  shows "move_slots buf d s n ! i = buf ! (s + (i - d))"
proof -
  have a: "\<not> i < d" "i - d < n" using assms by arith+
  have l: "length (take d buf) = d" "length (take n (drop s buf)) = n"
    using assms by simp_all
  show ?thesis
    unfolding move_slots_def nth_append l using a assms by simp
qed

lemma nth_move_slots_right:
  assumes "s + n < length buf" "s < i" "i \<le> s + n"
  shows "move_slots buf (Suc s) s n ! i = buf ! (i - 1)"
proof -
  have "s + (i - Suc s) = i - 1" using assms by simp
  with assms show ?thesis by (simp add: nth_move_slots_in)
qed

lemma nth_move_slots_left:
  assumes "s + n < length buf" "s \<le> i" "i < s + n"
  shows "move_slots buf s (Suc s) n ! i = buf ! (Suc i)"
proof -
  have "Suc s + (i - s) = Suc i" using assms by simp
  with assms show ?thesis by (simp add: nth_move_slots_in)
qed

lemma mod_ring_lo: "H + j < C \<Longrightarrow> (H + j) mod C = H + (j::nat)"
  by simp

lemma mod_ring_hi: "C \<le> H + j \<Longrightarrow> H + j < C + C \<Longrightarrow> (H + j) mod C = H + j - (C::nat)"
  by (simp add: le_mod_geq)

lemma nth_ins:
  "p \<le> length xs \<Longrightarrow> j \<le> length xs \<Longrightarrow>
   (take p xs @ v # drop p xs) ! j = (if j < p then xs ! j else if j = p then v else xs ! (j - 1))"
  by (auto simp: nth_append min_def nth_Cons')

lemma length_ring: "length (ring buf H N) = N"
  by (simp add: ring_def)

lemma nth_ring: "j < N \<Longrightarrow> ring buf H N ! j = buf ! ((H + j) mod length buf)"
  by (simp add: ring_def)

lemma phys_cases:
  fixes H C j :: nat
  assumes "H < C" "j \<le> C"
  obtains (lo) "H + j < C" "(H + j) mod C = H + j"
        | (hi) "C \<le> H + j" "(H + j) mod C = H + j - C" "H + j - C \<le> H"
proof (cases "H + j < C")
  case True
  show ?thesis by (rule lo) (use True in simp_all)
next
  case False
  then have a: "C \<le> H + j" "H + j < C + C" using assms by arith+
  then have b: "(H + j) mod C = H + j - C" by (rule mod_ring_hi)
  have c: "H + j - C \<le> H" using assms False by arith
  show ?thesis by (rule hi) (fact a b c)+
qed

lemma phys_less: "H < C \<Longrightarrow> (H + j) mod C < (C::nat)"
  by simp

lemma phys_inj:
  fixes H C i j :: nat
  assumes "H < C" "i < C" "j < C" "(H + i) mod C = (H + j) mod C"
  shows "i = j"
proof -
  have "i \<le> C" "j \<le> C" using assms(2,3) by simp_all
  show ?thesis
    by (rule phys_cases [OF assms(1) \<open>i \<le> C\<close>]; rule phys_cases [OF assms(1) \<open>j \<le> C\<close>])
       (use assms in arith)+
qed

lemma ring_append:
  assumes "H < length buf" "N < length buf"
  shows "ring (buf[(H + N) mod length buf := v]) H (Suc N) = ring buf H N @ [v]"
proof (rule nth_equalityI)
  show "length (ring (buf[(H + N) mod length buf := v]) H (Suc N)) = length (ring buf H N @ [v])"
    by (simp add: length_ring)
next
  fix j assume "j < length (ring (buf[(H + N) mod length buf := v]) H (Suc N))"
  then have j: "j < Suc N" by (simp add: length_ring)
  have m: "(H + N) mod length buf < length buf" using assms(1) by (rule phys_less)
  show "ring (buf[(H + N) mod length buf := v]) H (Suc N) ! j = (ring buf H N @ [v]) ! j"
  proof (cases "j = N")
    case True
    then show ?thesis using m by (simp add: nth_ring nth_append length_ring)
  next
    case False
    then have "j < N" using j by simp
    then have "(H + j) mod length buf \<noteq> (H + N) mod length buf"
      using phys_inj [OF assms(1), of j N] assms by auto
    then show ?thesis using \<open>j < N\<close> by (simp add: nth_ring nth_append length_ring)
  qed
qed

lemma ring_eqI:
  assumes "length ys = N" "\<And>j. j < N \<Longrightarrow> buf ! ((H + j) mod length buf) = ys ! j"
  shows "ring buf H N = ys"
  using assms by (intro nth_equalityI) (simp_all add: length_ring nth_ring)

lemma ring_prepend:
  assumes "H < length buf" "N < length buf" "H' = (H + length buf - 1) mod length buf"
  shows "ring (buf[H' := v]) H' (Suc N) = v # ring buf H N"
proof (rule ring_eqI)
  show "length (v # ring buf H N) = Suc N" by (simp add: length_ring)
next
  fix j assume j: "j < Suc N"
  let ?C = "length buf"
  have "0 < ?C" using assms by arith
  then have H': "H' < ?C" using assms by simp
  show "buf[H' := v] ! ((H' + j) mod length (buf[H' := v])) = (v # ring buf H N) ! j"
  proof (cases j)
    case 0
    then show ?thesis using H' by simp
  next
    case (Suc i)
    then have i: "i < N" using j by simp
    have "(H' + j) mod ?C = ((H + ?C - 1) + j) mod ?C"
      unfolding assms(3) by (simp add: mod_add_left_eq)
    also have "(H + ?C - 1) + j = (H + i) + ?C" using Suc assms by simp
    also have "\<dots> mod ?C = (H + i) mod ?C" by simp
    finally have e: "(H' + j) mod ?C = (H + i) mod ?C" .
    have "j < ?C" "0 < ?C" using j assms by arith+
    with phys_inj [OF H', of j 0] Suc have "(H' + j) mod ?C \<noteq> (H' + 0) mod ?C"
      by blast
    then have "(H + i) mod ?C \<noteq> H'" using e H' by simp
    then show ?thesis using Suc i e by (simp add: nth_ring)
  qed
qed

lemma ring_set:
  assumes "H < length buf" "N \<le> length buf" "p < N"
  shows "ring (buf[(H + p) mod length buf := v]) H N = (ring buf H N)[p := v]"
proof (rule ring_eqI)
  show "length ((ring buf H N)[p := v]) = N" by (simp add: length_ring)
next
  fix j assume j: "j < N"
  let ?C = "length buf"
  have m: "(H + p) mod ?C < ?C" using assms(1) by (rule phys_less)
  show "buf[(H + p) mod ?C := v] ! ((H + j) mod length (buf[(H + p) mod ?C := v])) = (ring buf H N)[p := v] ! j"
  proof (cases "j = p")
    case True
    then show ?thesis using m j by (simp add: length_ring)
  next
    case False
    then have "(H + j) mod ?C \<noteq> (H + p) mod ?C"
      using phys_inj [OF assms(1), of j p] assms j by auto
    then show ?thesis using False j by (simp add: nth_ring length_ring)
  qed
qed

lemma ring_ins_nowrap:
  assumes "H < length buf" "N < length buf" "0 < p" "p < N"
    and I: "I = (H + p) mod length buf" and T: "T = (H + N) mod length buf" and IT: "I < T"
  shows "ring ((move_slots buf (Suc I) I (T - I))[I := v]) H (Suc N)
         = take p (ring buf H N) @ v # drop p (ring buf H N)"
proof (rule ring_eqI)
  show "length (take p (ring buf H N) @ v # drop p (ring buf H N)) = Suc N"
    using assms by (simp add: length_ring)
next
  fix j assume j: "j < Suc N"
  let ?C = "length buf"
  let ?k = "(H + j) mod ?C"
  have TC: "T < ?C" unfolding T using assms(1) by (rule phys_less)
  have len: "length ((move_slots buf (Suc I) I (T - I))[I := v]) = ?C"
    using TC IT by (simp add: length_move_slots)
  have pC: "p \<le> ?C" and NC: "N \<le> ?C" and jC: "j \<le> ?C" using assms j by simp_all
  have kC: "?k < ?C" using assms(1) by (rule phys_less)
  have lt: "j < p \<Longrightarrow> ?k < I \<or> T < ?k"
    unfolding I T
    by (rule phys_cases [OF assms(1) pC]; rule phys_cases [OF assms(1) NC];
        rule phys_cases [OF assms(1) jC]) (use assms j IT I T in arith)+
  have gt: "p < j \<Longrightarrow> I < ?k \<and> ?k \<le> T \<and> (H + (j - 1)) mod ?C = ?k - 1"
  proof -
    assume pj: "p < j"
    then have j1C: "j - 1 \<le> ?C" using jC by simp
    show ?thesis
      unfolding I T
      by (rule phys_cases [OF assms(1) pC]; rule phys_cases [OF assms(1) NC];
          rule phys_cases [OF assms(1) jC]; rule phys_cases [OF assms(1) j1C])
         (use assms j IT I T pj in arith)+
  qed
  have rhs: "(take p (ring buf H N) @ v # drop p (ring buf H N)) ! j
      = (if j < p then buf ! ?k else if j = p then v else buf ! ((H + (j - 1)) mod ?C))"
    using assms j by (simp add: nth_ins length_ring nth_ring)
  consider "j < p" | "j = p" | "p < j" by arith
  then have "(move_slots buf (Suc I) I (T - I))[I := v] ! ?k
      = (if j < p then buf ! ?k else if j = p then v else buf ! ((H + (j - 1)) mod ?C))"
  proof cases
    case 1
    with lt have "?k < I \<or> T < ?k" by simp
    then have "?k \<noteq> I" "?k < Suc I \<or> Suc I + (T - I) \<le> ?k" using IT by arith+
    then show ?thesis using 1 TC IT kC by (simp add: nth_move_slots_out)
  next
    case 2
    then show ?thesis using I TC IT by (simp add: length_move_slots)
  next
    case 3
    with gt have g: "I < ?k" "?k \<le> T" "(H + (j - 1)) mod ?C = ?k - 1" by simp_all
    then have "?k \<noteq> I" "?k \<le> I + (T - I)" using IT by arith+
    then show ?thesis using 3 g TC IT by (simp add: nth_move_slots_right)
  qed
  then show "(move_slots buf (Suc I) I (T - I))[I := v] ! ((H + j) mod length ((move_slots buf (Suc I) I (T - I))[I := v]))
      = (take p (ring buf H N) @ v # drop p (ring buf H N)) ! j"
    unfolding len rhs .
qed

lemma ring_ins_wrap:
  assumes "H < length buf" "N < length buf" "0 < p" "p < N"
    and I: "I = (H + p) mod length buf" and T: "T = (H + N) mod length buf" and IT: "\<not> I < T"
  shows "ring ((move_slots (move_slots (move_slots buf (Suc 0) 0 T) 0 (length buf - 1) (Suc 0)) (Suc I) I
                 (length buf - I - 1))[I := v]) H (Suc N)
         = take p (ring buf H N) @ v # drop p (ring buf H N)"
proof (rule ring_eqI)
  show "length (take p (ring buf H N) @ v # drop p (ring buf H N)) = Suc N"
    using assms by (simp add: length_ring)
next
  fix j assume j: "j < Suc N"
  let ?C = "length buf"
  let ?k = "(H + j) mod ?C"
  define B1 where "B1 = move_slots buf (Suc 0) 0 T"
  define B2 where "B2 = move_slots B1 0 (?C - 1) (Suc 0)"
  define B3 where "B3 = move_slots B2 (Suc I) I (?C - I - 1)"
  have pC: "p \<le> ?C" and NC: "N \<le> ?C" and jC: "j \<le> ?C" using assms j by simp_all
  have geo: "H + p < ?C \<and> I = H + p \<and> ?C \<le> H + N \<and> T + ?C = H + N"
    unfolding I T
    by (rule phys_cases [OF assms(1) pC]; rule phys_cases [OF assms(1) NC])
       (use assms IT I T in arith)+
  then have g: "H + p < ?C" "I = H + p" "?C \<le> H + N" "T + ?C = H + N" by simp_all
  have TH: "T < H" using g assms by arith
  have l1: "length B1 = ?C" unfolding B1_def using TH assms by (simp add: length_move_slots)
  have l2: "length B2 = ?C" unfolding B2_def using l1 TH assms by (simp add: length_move_slots)
  have l3: "length B3 = ?C" unfolding B3_def using l2 g by (simp add: length_move_slots)
  have b1_shift: "\<And>i. 0 < i \<Longrightarrow> i \<le> T \<Longrightarrow> B1 ! i = buf ! (i - 1)"
    unfolding B1_def using TH assms by (simp add: nth_move_slots_right)
  have b1_keep: "\<And>i. T < i \<Longrightarrow> i < ?C \<Longrightarrow> B1 ! i = buf ! i"
    unfolding B1_def using TH assms by (simp add: nth_move_slots_out)
  have b2_zero: "B2 ! 0 = B1 ! (?C - 1)"
    unfolding B2_def using l1 assms by (simp add: nth_move_slots_in)
  have b2_keep: "\<And>i. 0 < i \<Longrightarrow> i < ?C \<Longrightarrow> B2 ! i = B1 ! i"
    unfolding B2_def using l1 assms by (simp add: nth_move_slots_out)
  have b3_shift: "\<And>i. I < i \<Longrightarrow> i < ?C \<Longrightarrow> B3 ! i = B2 ! (i - 1)"
    unfolding B3_def using l2 g by (simp add: nth_move_slots_right)
  have b3_keep: "\<And>i. i \<le> I \<Longrightarrow> B3 ! i = B2 ! i"
    unfolding B3_def using l2 g by (simp add: nth_move_slots_out)
  have rhs: "(take p (ring buf H N) @ v # drop p (ring buf H N)) ! j
      = (if j < p then buf ! ?k else if j = p then v else buf ! ((H + (j - 1)) mod ?C))"
    using assms j by (simp add: nth_ins length_ring nth_ring)
  consider (a) "j < p" | (b) "j = p" | (c) "p < j" "H + j < ?C" | (d) "p < j" "H + j = ?C"
    | (e) "p < j" "?C < H + j" by arith
  then have "B3[I := v] ! ?k
      = (if j < p then buf ! ?k else if j = p then v else buf ! ((H + (j - 1)) mod ?C))"
  proof cases
    case a
    then have k: "?k = H + j" using g by simp
    have "B3[I := v] ! (H + j) = B3 ! (H + j)" using a g by simp
    also have "\<dots> = B2 ! (H + j)" using a g by (simp add: b3_keep)
    also have "\<dots> = B1 ! (H + j)" using a g TH by (simp add: b2_keep)
    also have "\<dots> = buf ! (H + j)" using a g TH by (simp add: b1_keep)
    finally show ?thesis using a k by simp
  next
    case b
    then show ?thesis using g l3 by simp
  next
    case c
    then have k: "?k = H + j" "(H + (j - 1)) mod ?C = H + j - 1" by simp_all
    have "B3[I := v] ! (H + j) = B3 ! (H + j)" using c g by simp
    also have "\<dots> = B2 ! (H + j - 1)" using c g by (simp add: b3_shift)
    also have "\<dots> = B1 ! (H + j - 1)" using c g TH by (simp add: b2_keep)
    also have "\<dots> = buf ! (H + j - 1)" using c g TH by (simp add: b1_keep)
    finally show ?thesis using c k by simp
  next
    case d
    then have k: "?k = 0" "(H + (j - 1)) mod ?C = ?C - 1" by simp_all
    have "B3[I := v] ! 0 = B3 ! 0" using g assms by simp
    also have "\<dots> = B2 ! 0" by (simp add: b3_keep)
    also have "\<dots> = B1 ! (?C - 1)" by (rule b2_zero)
    also have "\<dots> = buf ! (?C - 1)" using g TH assms by (simp add: b1_keep)
    finally show ?thesis using d k by simp
  next
    case e
    have a1: "?C \<le> H + j" "H + j < ?C + ?C" "?C \<le> H + (j - 1)" "H + (j - 1) < ?C + ?C"
      using e j assms by arith+
    have k: "?k = H + j - ?C" "(H + (j - 1)) mod ?C = H + j - ?C - 1"
      using mod_ring_hi [OF a1(1,2)] mod_ring_hi [OF a1(3,4)] e by simp_all
    have r: "0 < H + j - ?C" "H + j - ?C \<le> T" "H + j - ?C < I" using e g j TH by arith+
    have "B3[I := v] ! (H + j - ?C) = B3 ! (H + j - ?C)" using r by simp
    also have "\<dots> = B2 ! (H + j - ?C)" using r by (simp add: b3_keep)
    also have "\<dots> = B1 ! (H + j - ?C)" using r g by (simp add: b2_keep)
    also have "\<dots> = buf ! (H + j - ?C - 1)" using r by (simp add: b1_shift)
    finally show ?thesis using e k by simp
  qed
  then show "(move_slots (move_slots (move_slots buf (Suc 0) 0 T) 0 (length buf - 1) (Suc 0)) (Suc I) I
                 (length buf - I - 1))[I := v] !
      ((H + j) mod length ((move_slots (move_slots (move_slots buf (Suc 0) 0 T) 0 (length buf - 1) (Suc 0)) (Suc I) I
                 (length buf - I - 1))[I := v]))
      = (take p (ring buf H N) @ v # drop p (ring buf H N)) ! j"
    unfolding rhs using l3 by (simp add: B1_def B2_def B3_def)
qed

lemma nth_del:
  "Suc j < length xs \<Longrightarrow>
   (take p xs @ drop (Suc p) xs) ! j = (if j < p then xs ! j else xs ! Suc j)"
  by (auto simp: nth_append min_def)

lemma ring_remove_last:
  assumes "0 < N"
  shows "ring buf H (N - 1) = take (N - 1) (ring buf H N) @ drop (Suc (N - 1)) (ring buf H N)"
  using assms by (simp add: ring_def take_map)

lemma ring_remove_first:
  assumes "H < length buf" "0 < N" "N \<le> length buf"
  shows "ring buf ((H + 1) mod length buf) (N - 1)
         = take 0 (ring buf H N) @ drop (Suc 0) (ring buf H N)"
proof (rule ring_eqI)
  show "length (take 0 (ring buf H N) @ drop (Suc 0) (ring buf H N)) = N - 1"
    by (simp add: length_ring)
next
  fix j assume j: "j < N - 1"
  have "((H + 1) mod length buf + j) mod length buf = (H + 1 + j) mod length buf"
    by (simp add: mod_add_left_eq)
  then show "buf ! (((H + 1) mod length buf + j) mod length buf)
      = (take 0 (ring buf H N) @ drop (Suc 0) (ring buf H N)) ! j"
    using j by (simp add: nth_ring length_ring)
qed

lemma ring_rem_nowrap:
  assumes "H < length buf" "N \<le> length buf" "0 < p" "Suc p < N"
    and I: "I = (H + p) mod length buf" and T: "T = (H + N) mod length buf" and IT: "I < T"
  shows "ring (move_slots buf I (Suc I) (T - I - 1)) H (N - 1)
         = take p (ring buf H N) @ drop (Suc p) (ring buf H N)"
proof (rule ring_eqI)
  show "length (take p (ring buf H N) @ drop (Suc p) (ring buf H N)) = N - 1"
    using assms by (simp add: length_ring)
next
  fix j assume j: "j < N - 1"
  let ?C = "length buf"
  let ?k = "(H + j) mod ?C"
  have TC: "T < ?C" unfolding T using assms(1) by (rule phys_less)
  have kC: "?k < ?C" using assms(1) by (rule phys_less)
  have len: "length (move_slots buf I (Suc I) (T - I - 1)) = ?C"
    using TC IT by (simp add: length_move_slots)
  have pC: "p \<le> ?C" and NC: "N \<le> ?C" and jC: "j \<le> ?C" and j1C: "Suc j \<le> ?C"
    using assms j by simp_all
  have lt: "j < p \<Longrightarrow> ?k < I \<or> T \<le> ?k"
    unfolding I T
    by (rule phys_cases [OF assms(1) pC]; rule phys_cases [OF assms(1) NC];
        rule phys_cases [OF assms(1) jC]) (use assms j IT I T in arith)+
  have ge: "p \<le> j \<Longrightarrow> I \<le> ?k \<and> Suc ?k < T \<and> (H + Suc j) mod ?C = Suc ?k"
    unfolding I T
    by (rule phys_cases [OF assms(1) pC]; rule phys_cases [OF assms(1) NC];
        rule phys_cases [OF assms(1) jC]; rule phys_cases [OF assms(1) j1C])
       (use assms j IT I T in arith)+
  have rhs: "(take p (ring buf H N) @ drop (Suc p) (ring buf H N)) ! j
      = (if j < p then buf ! ?k else buf ! ((H + Suc j) mod ?C))"
    using assms j by (simp add: nth_del length_ring nth_ring)
  have "move_slots buf I (Suc I) (T - I - 1) ! ?k
      = (if j < p then buf ! ?k else buf ! ((H + Suc j) mod ?C))"
  proof (cases "j < p")
    case True
    with lt have "?k < I \<or> T \<le> ?k" by simp
    then have "?k < I \<or> I + (T - I - 1) \<le> ?k" using IT by arith
    then show ?thesis using True TC IT kC by (simp add: nth_move_slots_out)
  next
    case False
    with ge have g: "I \<le> ?k" "Suc ?k < T" "(H + Suc j) mod ?C = Suc ?k" by simp_all
    then have "?k < I + (T - I - 1)" "I + (T - I - 1) < ?C" using IT TC by arith+
    then show ?thesis using False g by (simp add: nth_move_slots_left)
  qed
  then show "move_slots buf I (Suc I) (T - I - 1) ! ((H + j) mod length (move_slots buf I (Suc I) (T - I - 1)))
      = (take p (ring buf H N) @ drop (Suc p) (ring buf H N)) ! j"
    unfolding len rhs .
qed

lemma ring_rem_wrap:
  assumes "H < length buf" "N \<le> length buf" "0 < p" "Suc p < N"
    and I: "I = (H + p) mod length buf" and T: "T = (H + N) mod length buf" and IT: "\<not> I < T"
  shows "ring (move_slots buf (Suc H) H p) ((H + 1) mod length buf) (N - 1)
         = take p (ring buf H N) @ drop (Suc p) (ring buf H N)"
proof (rule ring_eqI)
  show "length (take p (ring buf H N) @ drop (Suc p) (ring buf H N)) = N - 1"
    using assms by (simp add: length_ring)
next
  fix j assume j: "j < N - 1"
  let ?C = "length buf"
  let ?k = "(H + Suc j) mod ?C"
  have pC: "p \<le> ?C" and NC: "N \<le> ?C" and jC: "j \<le> ?C" and j1C: "Suc j \<le> ?C"
    using assms j by simp_all
  have kC: "?k < ?C" using assms(1) by (rule phys_less)
  have geo: "H + p < ?C"
    using IT unfolding I T
    by (rule_tac phys_cases [OF assms(1) pC]; rule_tac phys_cases [OF assms(1) NC])
       (use assms in arith)+
  have len: "length (move_slots buf (Suc H) H p) = ?C" using geo by (simp add: length_move_slots)
  have idx: "((H + 1) mod ?C + j) mod ?C = ?k"
    by (simp add: mod_add_left_eq)
  have lt: "j < p \<Longrightarrow> ?k = Suc (H + j) \<and> (H + j) mod ?C = H + j"
    using geo by simp
  have ge: "p \<le> j \<Longrightarrow> ?k < Suc H \<or> Suc H + p \<le> ?k"
    by (rule phys_cases [OF assms(1) j1C]) (use assms j geo in arith)+
  have rhs: "(take p (ring buf H N) @ drop (Suc p) (ring buf H N)) ! j
      = (if j < p then buf ! ((H + j) mod ?C) else buf ! ?k)"
    using assms j by (simp add: nth_del length_ring nth_ring)
  have "move_slots buf (Suc H) H p ! ?k = (if j < p then buf ! ((H + j) mod ?C) else buf ! ?k)"
  proof (cases "j < p")
    case True
    with lt have g: "?k = Suc (H + j)" "(H + j) mod ?C = H + j" by simp_all
    have "move_slots buf (Suc H) H p ! Suc (H + j) = buf ! (Suc (H + j) - 1)"
      using True geo by (intro nth_move_slots_right) simp_all
    then show ?thesis using True g by simp
  next
    case False
    with ge have "?k < Suc H \<or> Suc H + p \<le> ?k" by simp
    then show ?thesis using False geo kC by (simp add: nth_move_slots_out)
  qed
  then show "move_slots buf (Suc H) H p ! (((H + 1) mod ?C + j) mod length (move_slots buf (Suc H) H p))
      = (take p (ring buf H N) @ drop (Suc p) (ring buf H N)) ! j"
    unfolding len rhs idx .
qed

lemma ring_grow:
  assumes "H < length buf" "length buf2 = length buf + length buf" "take (length buf) buf2 = buf"
  shows "ring (move_slots buf2 (length buf) 0 H) H (length buf) = ring buf H (length buf)"
proof (rule ring_eqI)
  show "length (ring buf H (length buf)) = length buf" by (simp add: length_ring)
next
  fix j assume j: "j < length buf"
  let ?C = "length buf"
  have len: "length (move_slots buf2 ?C 0 H) = ?C + ?C" using assms by (simp add: length_move_slots)
  have old: "\<And>i. i < ?C \<Longrightarrow> buf2 ! i = buf ! i"
    using assms(3) by (metis nth_take)
  have k: "(H + j) mod (?C + ?C) = H + j" using assms j by simp
  have "move_slots buf2 ?C 0 H ! (H + j) = buf ! ((H + j) mod ?C)"
  proof (cases "H + j < ?C")
    case True
    then have "move_slots buf2 ?C 0 H ! (H + j) = buf2 ! (H + j)"
      using assms by (simp add: nth_move_slots_out)
    then show ?thesis using True old by simp
  next
    case False
    then have a: "?C \<le> H + j" "H + j < ?C + ?C" using assms j by arith+
    have "move_slots buf2 ?C 0 H ! (H + j) = buf2 ! (0 + (H + j - ?C))"
      using a assms j by (intro nth_move_slots_in) simp_all
    also have "\<dots> = buf ! (H + j - ?C)" using a assms j by (simp add: old)
    finally show ?thesis using mod_ring_hi [OF a] by simp
  qed
  then show "move_slots buf2 ?C 0 H ! ((H + j) mod length (move_slots buf2 ?C 0 H))
      = ring buf H ?C ! j"
    unfolding len k using j by (simp add: nth_ring)
qed


subsection \<open>Word arithmetic of a well-formed vector\<close>

lemma unat_add_small:
  fixes a b :: size_t
  assumes "unat a + unat b < 2 ^ 64"
  shows "unat (a + b) = unat a + unat b"
  using assms unat_add_lem [of a b] by simp

lemma unat_idx:
  fixes h p c :: size_t
  assumes "unat h < unat c" "unat p \<le> unat c" "unat c \<le> 2 ^ 63"
  shows "unat ((h + p) mod c) = (unat h + unat p) mod unat c"
proof -
  have "unat h + unat p < 2 ^ 64" using assms by simp
  then show ?thesis by (simp add: unat_mod unat_add_small)
qed

lemma unat_succ_mod:
  fixes t c :: size_t
  assumes "unat t < unat c" "unat c \<le> 2 ^ 63"
  shows "unat ((t + 1) mod c) = Suc (unat t) mod unat c"
  using unat_idx [of t c 1] assms by simp

lemma unat_pred_mod:
  fixes h c :: size_t
  assumes "unat h < unat c" "unat c \<le> 2 ^ 63"
  shows "unat ((h - 1 + c) mod c) = (unat h + unat c - 1) mod unat c"
proof -
  have c0: "1 \<le> c" using assms by (simp add: word_le_nat_alt)
  have e: "h - 1 + c = h + (c - 1)" by simp
  have u: "unat (c - 1) = unat c - 1" using c0 by (simp add: unat_sub)
  have "unat h + unat (c - 1) < 2 ^ 64" using assms u by simp
  then have "unat (h + (c - 1)) = unat h + (unat c - 1)" using u by (simp add: unat_add_small)
  then show ?thesis unfolding e using assms by (simp add: unat_mod)
qed


lemma bind_res_Inr [simp]: "bind_res (Inr x) f = f x"
  by (simp add: bind_res_def)

lemma bind_res_Inl [simp]: "bind_res (Inl e) f = Inl e"
  by (simp add: bind_res_def)

lemma vec_inv_nonfull:
  assumes "vec_inv ds" "unat (size' ds) < unat (capacity ds)"
  shows "capacity ds \<noteq> 0" "unat (head ds) < unat (capacity ds)"
    "unat (tail ds) < unat (capacity ds)" "length (vector ds) = unat (capacity ds)"
    "unat (capacity ds) \<le> 2 ^ 63"
    "unat (tail ds) = (unat (head ds) + unat (size' ds)) mod unat (capacity ds)"
proof -
  show c: "capacity ds \<noteq> 0" using assms(2) by auto
  then show h: "unat (head ds) < unat (capacity ds)" using assms(1) by (auto simp: vec_inv_def)
  show t: "unat (tail ds) = (unat (head ds) + unat (size' ds)) mod unat (capacity ds)"
    using assms(1) by (simp add: vec_inv_def)
  show "unat (tail ds) < unat (capacity ds)" unfolding t using h by simp
  show "length (vector ds) = unat (capacity ds)" "unat (capacity ds) \<le> 2 ^ 63"
    using assms(1) by (simp_all add: vec_inv_def)
qed

lemma unat_size_succ:
  assumes "vec_inv ds" "unat (size' ds) < unat (capacity ds)"
  shows "unat (size' ds + 1) = Suc (unat (size' ds))"
proof -
  have "unat (size' ds) + unat (1 :: size_t) < 2 ^ 64"
    using assms vec_inv_nonfull(5) [OF assms] by simp
  then show ?thesis by (simp add: unat_add_small)
qed

lemma place_append:
  fixes ds :: "'a LinearDS" and v :: 'a
  assumes inv: "vec_inv ds" and nf: "unat (size' ds) < unat (capacity ds)"
    and pos: "position = size' ds"
  defines "d \<equiv> ds\<lparr>vector := (vector ds)[unat (tail ds) := Val v],
                    tail := (tail ds + 1) mod capacity ds\<rparr>"
  shows "insert_element_in_vector_place ds position v = Inr d"
    and "vec_inv (d\<lparr>size' := size' ds + 1\<rparr>)"
    and "vec_contents (d\<lparr>size' := size' ds + 1\<rparr>) = vec_contents ds @ [Val v]"
proof -
  note f = vec_inv_nonfull [OF inv nf]
  show "insert_element_in_vector_place ds position v = Inr d"
    using pos f by (simp add: insert_element_in_vector_place_def store_slot_def mod_sz_def d_def)
  have t': "unat ((tail ds + 1) mod capacity ds)
      = (unat (head ds) + Suc (unat (size' ds))) mod unat (capacity ds)"
    using f by (simp add: unat_succ_mod mod_Suc_eq)
  show "vec_inv (d\<lparr>size' := size' ds + 1\<rparr>)"
    using inv nf f t' by (simp add: vec_inv_def d_def unat_size_succ [OF inv nf])
  show "vec_contents (d\<lparr>size' := size' ds + 1\<rparr>) = vec_contents ds @ [Val v]"
    using f nf ring_append [of "unat (head ds)" "vector ds" "unat (size' ds)" "Val v"]
    by (simp add: vec_contents_def d_def unat_size_succ [OF inv nf])
qed


lemma place_prepend:
  fixes ds :: "'a LinearDS" and v :: 'a
  assumes inv: "vec_inv ds" and nf: "unat (size' ds) < unat (capacity ds)"
    and pos: "position \<noteq> size' ds" "position = 0"
  defines "h' \<equiv> (head ds - 1 + capacity ds) mod capacity ds"
  defines "d \<equiv> ds\<lparr>vector := (vector ds)[unat h' := Val v], head := h'\<rparr>"
  shows "insert_element_in_vector_place ds position v = Inr d"
    and "vec_inv (d\<lparr>size' := size' ds + 1\<rparr>)"
    and "vec_contents (d\<lparr>size' := size' ds + 1\<rparr>) = Val v # vec_contents ds"
proof -
  note f = vec_inv_nonfull [OF inv nf]
  let ?C = "unat (capacity ds)"
  have cpos: "0 < ?C" using nf by simp
  have h': "unat h' = (unat (head ds) + ?C - 1) mod ?C"
    unfolding h'_def using f by (simp add: unat_pred_mod)
  then have h'C: "unat h' < ?C" using cpos by simp
  show "insert_element_in_vector_place ds position v = Inr d"
    using pos f h'C
    by (simp add: insert_element_in_vector_place_def store_slot_def mod_sz_def d_def h'_def)
  have "(unat h' + Suc (unat (size' ds))) mod ?C
      = ((unat (head ds) + ?C - 1) + Suc (unat (size' ds))) mod ?C"
    unfolding h' by (rule mod_add_left_eq)
  also have "(unat (head ds) + ?C - 1) + Suc (unat (size' ds))
      = (unat (head ds) + unat (size' ds)) + ?C" using cpos by simp
  also have "\<dots> mod ?C = (unat (head ds) + unat (size' ds)) mod ?C" by simp
  finally have t: "unat (tail ds) = (unat h' + Suc (unat (size' ds))) mod ?C"
    using f by simp
  show "vec_inv (d\<lparr>size' := size' ds + 1\<rparr>)"
    using inv nf f t h'C by (simp add: vec_inv_def d_def unat_size_succ [OF inv nf])
  show "vec_contents (d\<lparr>size' := size' ds + 1\<rparr>) = Val v # vec_contents ds"
    using f nf h' ring_prepend [of "unat (head ds)" "vector ds" "unat (size' ds)" "unat h'" "Val v"]
    by (simp add: vec_contents_def d_def unat_size_succ [OF inv nf])
qed

lemma vec_mid_facts:
  fixes ds :: "'a LinearDS"
  assumes inv: "vec_inv ds" and nf: "unat (size' ds) \<le> unat (capacity ds)"
    and c0: "capacity ds \<noteq> 0" and pos: "position \<le> size' ds"
  defines "index \<equiv> (head ds + position) mod capacity ds"
  shows "unat index = (unat (head ds) + unat position) mod unat (capacity ds)"
    and "unat index < unat (capacity ds)"
    and "unat (index + 1) = Suc (unat index)"
    and "unat (capacity ds - index - 1) = unat (capacity ds) - unat index - 1"
    and "unat (capacity ds - 1) = unat (capacity ds) - 1"
    and "index < tail ds \<Longrightarrow> unat (tail ds - index) = unat (tail ds) - unat index"
    and "index < tail ds \<Longrightarrow> unat (tail ds - index - 1) = unat (tail ds) - unat index - 1"
proof -
  let ?C = "unat (capacity ds)"
  have cpos: "0 < ?C" using c0 by (simp add: unat_gt_0)
  have h: "unat (head ds) < ?C" and cb: "?C \<le> 2 ^ 63"
    using inv c0 by (auto simp: vec_inv_def)
  have p: "unat position \<le> ?C" using pos nf by (simp add: word_le_nat_alt)
  show i: "unat index = (unat (head ds) + unat position) mod ?C"
    unfolding index_def using h p cb by (rule unat_idx)
  then show iC: "unat index < ?C" using cpos by simp
  have "unat index + unat (1 :: size_t) < 2 ^ 64" using iC cb by simp
  then show "unat (index + 1) = Suc (unat index)" by (simp add: unat_add_small)
  have le: "index \<le> capacity ds" using iC by (simp add: word_le_nat_alt)
  have u1: "unat (capacity ds - index) = ?C - unat index" using le by (simp add: unat_sub)
  have "1 \<le> capacity ds - index" using iC u1 by (simp add: word_le_nat_alt)
  then show "unat (capacity ds - index - 1) = ?C - unat index - 1"
    using u1 by (simp add: unat_sub)
  have "1 \<le> capacity ds" using cpos by (simp add: word_le_nat_alt)
  then show "unat (capacity ds - 1) = ?C - 1" by (simp add: unat_sub)
  {
    assume lt: "index < tail ds"
    then have le2: "index \<le> tail ds" by simp
    then show u2: "unat (tail ds - index) = unat (tail ds) - unat index" by (simp add: unat_sub)
    have "1 \<le> tail ds - index" using lt u2 by (simp add: word_le_nat_alt word_less_nat_alt)
    then show "unat (tail ds - index - 1) = unat (tail ds) - unat index - 1"
      using u2 by (simp add: unat_sub)
  }
qed


lemma place_mid_nowrap:
  fixes ds :: "'a LinearDS" and v :: 'a
  assumes inv: "vec_inv ds" and nf: "unat (size' ds) < unat (capacity ds)"
    and pos: "position \<noteq> size' ds" "position \<noteq> 0" "position \<le> size' ds"
  defines "index \<equiv> (head ds + position) mod capacity ds"
  assumes lt: "index < tail ds"
  defines "d \<equiv> ds\<lparr>vector := (move_slots (vector ds) (Suc (unat index)) (unat index)
                                  (unat (tail ds) - unat index))[unat index := Val v],
                    tail := (tail ds + 1) mod capacity ds\<rparr>"
  shows "insert_element_in_vector_place ds position v = Inr d"
    and "vec_inv (d\<lparr>size' := size' ds + 1\<rparr>)"
    and "vec_contents (d\<lparr>size' := size' ds + 1\<rparr>)
         = take (unat position) (vec_contents ds) @ Val v # drop (unat position) (vec_contents ds)"
proof -
  note f = vec_inv_nonfull [OF inv nf]
  note g = f(1-5)
  have nf': "unat (size' ds) \<le> unat (capacity ds)" using nf by simp
  note m = vec_mid_facts [OF inv nf' f(1) pos(3), folded index_def]
  let ?C = "unat (capacity ds)"
  have IT: "unat index < unat (tail ds)" using lt by (simp add: word_less_nat_alt)
  have p0: "0 < unat position" using pos(2) by (simp add: unat_gt_0)
  have "position < size' ds" using pos(1,3) by simp
  then have pN: "unat position < unat (size' ds)" by (simp add: word_less_nat_alt)
  have len: "length (move_slots (vector ds) (Suc (unat index)) (unat index)
      (unat (tail ds) - unat index)) = ?C"
    using g IT by (simp add: length_move_slots)
  show "insert_element_in_vector_place ds position v = Inr d"
    using pos lt g m(2-7) IT len
    by (simp add: insert_element_in_vector_place_def store_slot_def mod_sz_def
        memmove_slots_def d_def index_def [symmetric] Let_def)
  have t': "unat ((tail ds + 1) mod capacity ds)
      = (unat (head ds) + Suc (unat (size' ds))) mod ?C"
    using f by (simp add: unat_succ_mod mod_Suc_eq)
  show "vec_inv (d\<lparr>size' := size' ds + 1\<rparr>)"
    using inv nf f t' len by (simp add: vec_inv_def d_def unat_size_succ [OF inv nf])
  show "vec_contents (d\<lparr>size' := size' ds + 1\<rparr>)
      = take (unat position) (vec_contents ds) @ Val v # drop (unat position) (vec_contents ds)"
    using f nf p0 pN m(1) IT
      ring_ins_nowrap [of "unat (head ds)" "vector ds" "unat (size' ds)" "unat position"
        "unat index" "unat (tail ds)" "Val v"]
    by (simp add: vec_contents_def d_def unat_size_succ [OF inv nf])
qed

lemma place_mid_wrap:
  fixes ds :: "'a LinearDS" and v :: 'a
  assumes inv: "vec_inv ds" and nf: "unat (size' ds) < unat (capacity ds)"
    and pos: "position \<noteq> size' ds" "position \<noteq> 0" "position \<le> size' ds"
  defines "index \<equiv> (head ds + position) mod capacity ds"
  assumes nlt: "\<not> index < tail ds"
  defines "d \<equiv> ds\<lparr>vector :=
        (move_slots
          (move_slots (move_slots (vector ds) (Suc 0) 0 (unat (tail ds)))
             0 (unat (capacity ds) - 1) (Suc 0))
          (Suc (unat index)) (unat index) (unat (capacity ds) - unat index - 1))
        [unat index := Val v],
      tail := (tail ds + 1) mod capacity ds\<rparr>"
  shows "insert_element_in_vector_place ds position v = Inr d"
    and "vec_inv (d\<lparr>size' := size' ds + 1\<rparr>)"
    and "vec_contents (d\<lparr>size' := size' ds + 1\<rparr>)
         = take (unat position) (vec_contents ds) @ Val v # drop (unat position) (vec_contents ds)"
proof -
  note f = vec_inv_nonfull [OF inv nf]
  note g = f(1-5)
  have nf': "unat (size' ds) \<le> unat (capacity ds)" using nf by simp
  note m = vec_mid_facts [OF inv nf' f(1) pos(3), folded index_def]
  let ?C = "unat (capacity ds)"
  let ?B1 = "move_slots (vector ds) (Suc 0) 0 (unat (tail ds))"
  let ?B2 = "move_slots ?B1 0 (?C - 1) (Suc 0)"
  let ?B3 = "move_slots ?B2 (Suc (unat index)) (unat index) (?C - unat index - 1)"
  have IT: "\<not> unat index < unat (tail ds)" using nlt by (simp add: word_less_nat_alt)
  have p0: "0 < unat position" using pos(2) by (simp add: unat_gt_0)
  have "position < size' ds" using pos(1,3) by simp
  then have pN: "unat position < unat (size' ds)" by (simp add: word_less_nat_alt)
  have l1: "length ?B1 = ?C" using g by (simp add: length_move_slots)
  have l2: "length ?B2 = ?C" using g l1 by (simp add: length_move_slots)
  have l3: "length ?B3 = ?C" using g l2 m(2) by (simp add: length_move_slots)
  show "insert_element_in_vector_place ds position v = Inr d"
    using pos nlt g m(2-5) l1 l2 l3
    by (simp add: insert_element_in_vector_place_def store_slot_def mod_sz_def
        memmove_slots_def d_def index_def [symmetric] Let_def)
  have t': "unat ((tail ds + 1) mod capacity ds)
      = (unat (head ds) + Suc (unat (size' ds))) mod ?C"
    using f by (simp add: unat_succ_mod mod_Suc_eq)
  show "vec_inv (d\<lparr>size' := size' ds + 1\<rparr>)"
    using inv nf f t' l3 by (simp add: vec_inv_def d_def unat_size_succ [OF inv nf])
  show "vec_contents (d\<lparr>size' := size' ds + 1\<rparr>)
      = take (unat position) (vec_contents ds) @ Val v # drop (unat position) (vec_contents ds)"
    using f nf p0 pN m(1) IT
      ring_ins_wrap [of "unat (head ds)" "vector ds" "unat (size' ds)" "unat position"
        "unat index" "unat (tail ds)" "Val v"]
    by (simp add: vec_contents_def d_def unat_size_succ [OF inv nf])
qed


lemma place_correct:
  fixes ds :: "'a LinearDS" and v :: 'a
  assumes inv: "vec_inv ds" and nf: "unat (size' ds) < unat (capacity ds)"
    and pos: "position \<le> size' ds"
  shows "\<exists>d. insert_element_in_vector_place ds position v = Inr d \<and>
           vec_inv (d\<lparr>size' := size' ds + 1\<rparr>) \<and>
           vec_contents (d\<lparr>size' := size' ds + 1\<rparr>)
             = take (unat position) (vec_contents ds) @ Val v # drop (unat position) (vec_contents ds) \<and>
           size' d = size' ds \<and> capacity d = capacity ds \<and> data_size d = data_size ds \<and>
           it_position d = it_position ds"
proof -
  have len: "length (vec_contents ds) = unat (size' ds)"
    by (simp add: vec_contents_def length_ring)
  consider (last) "position = size' ds" | (first) "position \<noteq> size' ds" "position = 0"
    | (nowrap) "position \<noteq> size' ds" "position \<noteq> 0"
        "(head ds + position) mod capacity ds < tail ds"
    | (wrap) "position \<noteq> size' ds" "position \<noteq> 0"
        "\<not> (head ds + position) mod capacity ds < tail ds"
    by blast
  then show ?thesis
  proof cases
    case last
    from place_append [OF inv nf last, of v] len last show ?thesis by simp
  next
    case first
    from place_prepend [OF inv nf first, of v] first show ?thesis by simp
  next
    case nowrap
    from place_mid_nowrap [OF inv nf nowrap(1,2) pos nowrap(3), of v] show ?thesis by simp
  next
    case wrap
    from place_mid_wrap [OF inv nf wrap(1,2) pos wrap(3), of v] show ?thesis by simp
  qed
qed

lemma vec_inv_full:
  assumes "vec_inv ds" "size' ds = capacity ds"
  shows "unat (tail ds) = unat (head ds)"
    and "capacity ds \<noteq> 0 \<Longrightarrow> unat (head ds) < unat (capacity ds)"
    and "capacity ds = 0 \<Longrightarrow> head ds = 0"
  using assms by (auto simp: vec_inv_def)

lemma grow_correct:
  fixes ds :: "'a LinearDS"
  assumes inv: "vec_inv ds" and full: "size' ds = capacity ds"
    and small: "unat (capacity ds) \<le> 2 ^ 62"
  defines "nc \<equiv> (if capacity ds > 0 then capacity ds * 2 else 1)"
  defines "d \<equiv> ds\<lparr>vector := move_slots (realloc_slots (vector ds) nc)
                                 (unat (capacity ds)) 0 (unat (tail ds)),
                    tail := capacity ds + tail ds, capacity := nc\<rparr>"
  shows "insert_element_in_vector_grow ds True = Inr (Some d)"
    and "vec_inv d"
    and "vec_contents d = vec_contents ds"
    and "unat (size' d) < unat (capacity d)"
    and "unat nc = (if capacity ds = 0 then 1 else 2 * unat (capacity ds))"
proof -
  let ?C = "unat (capacity ds)"
  have l: "length (vector ds) = ?C" using inv by (simp add: vec_inv_def)
  have t: "unat (tail ds) = unat (head ds)" by (rule vec_inv_full(1) [OF inv full])
  have ht: "tail ds \<le> head ds" using t by (simp add: word_le_nat_alt)
  have "unat (capacity ds) * unat (2 :: size_t) < 2 ^ 64" using small by simp
  then have dbl: "unat (capacity ds * 2) = ?C * 2"
    using unat_mult_lem [of "capacity ds" 2] by simp
  show nc: "unat nc = (if capacity ds = 0 then 1 else 2 * ?C)"
    using dbl by (simp add: nc_def word_greater_zero_iff)
  have hC: "unat (head ds) + ?C \<le> unat nc"
    using nc vec_inv_full(2,3) [OF inv full] by (auto simp: unat_gt_0)
  have lr: "length (realloc_slots (vector ds) nc) = unat nc"
    using l nc by (simp add: realloc_slots_def)
  have rs: "realloc_slots (vector ds) nc = vector ds @ replicate (unat nc - ?C) Indeterminate"
    using l nc by (simp add: realloc_slots_def)
  have lm: "length (move_slots (realloc_slots (vector ds) nc) ?C 0 (unat (tail ds))) = unat nc"
    using lr hC t by (simp add: length_move_slots)
  show "insert_element_in_vector_grow ds True = Inr (Some d)"
    using ht lr hC t
    by (simp add: insert_element_in_vector_grow_def Let_def memmove_slots_def d_def
        nc_def [symmetric])
  have "unat (capacity ds) + unat (tail ds) < 2 ^ 64" using small t hC nc by (simp split: if_splits)
  then have tl: "unat (capacity ds + tail ds) = ?C + unat (head ds)"
    using t by (simp add: unat_add_small)
  have tm: "?C + unat (head ds) = (unat (head ds) + ?C) mod unat nc"
    using nc vec_inv_full(2,3) [OF inv full] by (auto simp: unat_gt_0)
  show "vec_inv d"
    using inv full lm nc small tl tm vec_inv_full(2,3) [OF inv full]
    by (auto simp: vec_inv_def d_def unat_gt_0)
  show "unat (size' d) < unat (capacity d)"
    using full nc by (simp add: d_def unat_gt_0)
  show "vec_contents d = vec_contents ds"
  proof (cases "capacity ds = 0")
    case True
    then show ?thesis using full by (simp add: vec_contents_def d_def ring_def)
  next
    case False
    then have h: "unat (head ds) < length (vector ds)"
      using vec_inv_full(2) [OF inv full] l by simp
    have "ring (move_slots (realloc_slots (vector ds) nc) (length (vector ds)) 0 (unat (head ds)))
        (unat (head ds)) (length (vector ds)) = ring (vector ds) (unat (head ds)) (length (vector ds))"
      using h False nc l by (intro ring_grow) (simp_all add: rs)
    then show ?thesis using full l t by (simp add: vec_contents_def d_def)
  qed
qed

lemma grow_fail: "insert_element_in_vector_grow ds False = Inr None"
  by (simp add: insert_element_in_vector_grow_def Let_def)

lemma insert_vec_fail:
  "size' ds = capacity ds \<Longrightarrow> insert_element_in_vector ds position v False = Inr (LDS_FAIL, ds)"
  by (simp add: insert_element_in_vector_def grow_fail)

lemma insert_vec_correct:
  fixes ds :: "'a LinearDS" and v :: 'a
  assumes inv: "vec_inv ds" and pos: "position \<le> size' ds"
    and room: "size' ds \<noteq> capacity ds \<or> ok \<and> unat (capacity ds) \<le> 2 ^ 62"
  shows "\<exists>d. insert_element_in_vector ds position v ok = Inr (LDS_SUCCESS, d) \<and>
           vec_inv d \<and>
           vec_contents d
             = take (unat position) (vec_contents ds) @ Val v # drop (unat position) (vec_contents ds) \<and>
           size' d = size' ds + 1 \<and> unat (size' d) = Suc (unat (size' ds)) \<and>
           data_size d = data_size ds \<and> it_position d = it_position ds \<and>
           capacity d = (if size' ds \<noteq> capacity ds then capacity ds
                         else if capacity ds > 0 then capacity ds * 2 else 1)"
proof (cases "size' ds = capacity ds")
  case False
  then have nf: "unat (size' ds) < unat (capacity ds)"
    using inv by (auto simp: vec_inv_def word_unat_eq_iff)
  from place_correct [OF inv nf pos, of v] obtain d where
    d: "insert_element_in_vector_place ds position v = Inr d"
      "vec_inv (d\<lparr>size' := size' ds + 1\<rparr>)"
      "vec_contents (d\<lparr>size' := size' ds + 1\<rparr>)
        = take (unat position) (vec_contents ds) @ Val v # drop (unat position) (vec_contents ds)"
      "size' d = size' ds" "capacity d = capacity ds" "data_size d = data_size ds"
      "it_position d = it_position ds"
    by blast
  show ?thesis
    using False d unat_size_succ [OF inv nf]
    by (simp add: insert_element_in_vector_def)
next
  case True
  with room have ok: "ok" and small: "unat (capacity ds) \<le> 2 ^ 62" by simp_all
  let ?g = "ds\<lparr>vector := move_slots (realloc_slots (vector ds)
                (if capacity ds > 0 then capacity ds * 2 else 1))
                (unat (capacity ds)) 0 (unat (tail ds)),
              tail := capacity ds + tail ds,
              capacity := (if capacity ds > 0 then capacity ds * 2 else 1)\<rparr>"
  note gr = grow_correct [OF inv True small]
  have pos': "position \<le> size' ?g" using pos by simp
  from place_correct [OF gr(2) gr(4) pos', of v] obtain d where
    d: "insert_element_in_vector_place ?g position v = Inr d"
      "vec_inv (d\<lparr>size' := size' ?g + 1\<rparr>)"
      "vec_contents (d\<lparr>size' := size' ?g + 1\<rparr>)
        = take (unat position) (vec_contents ?g) @ Val v # drop (unat position) (vec_contents ?g)"
      "size' d = size' ?g" "capacity d = capacity ?g" "data_size d = data_size ?g"
      "it_position d = it_position ?g"
    by blast
  show ?thesis
    using True ok d gr(1,3) unat_size_succ [OF gr(2) gr(4)]
    by (simp add: insert_element_in_vector_def)
qed


lemma vec_inv_nonempty:
  assumes "vec_inv ds" "position < size' ds"
  shows "capacity ds \<noteq> 0" "unat (head ds) < unat (capacity ds)"
    "unat (tail ds) < unat (capacity ds)" "length (vector ds) = unat (capacity ds)"
    "unat (capacity ds) \<le> 2 ^ 63" "unat (size' ds) \<le> unat (capacity ds)"
    "unat position < unat (size' ds)" "position \<le> size' ds"
    "unat (size' ds - 1) = unat (size' ds) - 1"
    "unat (tail ds) = (unat (head ds) + unat (size' ds)) mod unat (capacity ds)"
proof -
  show p: "unat position < unat (size' ds)" using assms(2) by (simp add: word_less_nat_alt)
  show n: "unat (size' ds) \<le> unat (capacity ds)" using assms(1) by (simp add: vec_inv_def)
  with p show c: "capacity ds \<noteq> 0" by auto
  then show h: "unat (head ds) < unat (capacity ds)" using assms(1) by (auto simp: vec_inv_def)
  show t: "unat (tail ds) = (unat (head ds) + unat (size' ds)) mod unat (capacity ds)"
    using assms(1) by (simp add: vec_inv_def)
  show "unat (tail ds) < unat (capacity ds)" unfolding t using h by simp
  show "length (vector ds) = unat (capacity ds)" "unat (capacity ds) \<le> 2 ^ 63"
    using assms(1) by (simp_all add: vec_inv_def)
  show "position \<le> size' ds" using assms(2) by simp
  have "1 \<le> size' ds" using p by (simp add: word_le_nat_alt)
  then show "unat (size' ds - 1) = unat (size' ds) - 1" by (simp add: unat_sub)
qed

lemma get_vec_correct:
  assumes inv: "vec_inv ds" and pos: "position < size' ds"
  shows "get_element_from_vector ds position
         = Inr (LDS_SUCCESS, ds, Some (vec_contents ds ! unat position))"
proof -
  note f = vec_inv_nonempty [OF inv pos]
  note m = vec_mid_facts [OF inv f(6) f(1) f(8)]
  show ?thesis
    using f(1,4,7) m(1,2)
    by (simp add: get_element_from_vector_def mod_sz_def load_slot_def vec_contents_def nth_ring)
qed

lemma set_vec_correct:
  assumes inv: "vec_inv ds" and pos: "position < size' ds"
    and wr: "vec_contents ds ! unat position = Val x"
  shows "\<exists>d. set_element_in_vector ds position v
           = Inr (if vec_contents ds ! unat position = Val v then LDS_FAIL else LDS_SUCCESS, d) \<and>
           (vec_contents ds ! unat position = Val v \<longrightarrow> d = ds) \<and>
           vec_inv d \<and> vec_contents d = (vec_contents ds)[unat position := Val v] \<and>
           size' d = size' ds \<and> capacity d = capacity ds \<and> it_position d = it_position ds"
proof -
  note f = vec_inv_nonempty [OF inv pos]
  note m = vec_mid_facts [OF inv f(6) f(1) f(8)]
  let ?I = "unat ((head ds + position) mod capacity ds)"
  have rd: "vec_contents ds ! unat position = vector ds ! ?I"
    using f(4,7) m(1) by (simp add: vec_contents_def nth_ring)
  show ?thesis
  proof (cases "vector ds ! ?I = Val v")
    case True
    then have "(vec_contents ds)[unat position := Val v] = vec_contents ds"
      using rd by (metis list_update_id)
    then show ?thesis
      using True rd inv f(1,4) m(2)
      by (simp add: set_element_in_vector_def mod_sz_def load_slot_def memcmp_slot_def)
  next
    case False
    have c: "vec_contents (ds\<lparr>vector := (vector ds)[?I := Val v]\<rparr>)
        = (vec_contents ds)[unat position := Val v]"
      using f(2,4,6,7) m(1)
        ring_set [of "unat (head ds)" "vector ds" "unat (size' ds)" "unat position" "Val v"]
      by (simp add: vec_contents_def)
    have i: "vec_inv (ds\<lparr>vector := (vector ds)[?I := Val v]\<rparr>)"
      using inv by (simp add: vec_inv_def)
    have w: "vector ds ! ?I = Val x" using rd wr by simp
    then have w': "x \<noteq> v" using False by auto
    show ?thesis
      using False w w' rd c i f(1,4) m(2)
      by (simp add: set_element_in_vector_def mod_sz_def load_slot_def store_slot_def
          memcmp_slot_def)
  qed
qed

lemma rem_wrap_geo:
  fixes H C N p :: nat
  assumes "H < C" "N \<le> C" "Suc p < N" "\<not> (H + p) mod C < (H + N) mod C"
  shows "H + p < C"
proof -
  have pC: "p \<le> C" and NC: "N \<le> C" using assms by simp_all
  show ?thesis
    using assms(4)
    by (rule_tac phys_cases [OF assms(1) pC]; rule_tac phys_cases [OF assms(1) NC])
       (use assms in arith)+
qed

lemma remove_vec_correct:
  fixes ds :: "'a LinearDS"
  assumes inv: "vec_inv ds" and pos: "position < size' ds"
  shows "\<exists>d. remove_element_from_vector ds position out
           = Inr (LDS_SUCCESS, d, if out then Some (vec_contents ds ! unat position) else None) \<and>
           vec_inv d \<and>
           vec_contents d
             = take (unat position) (vec_contents ds) @ drop (Suc (unat position)) (vec_contents ds) \<and>
           size' d = size' ds - 1 \<and> unat (size' d) = unat (size' ds) - 1 \<and>
           capacity d = capacity ds \<and> data_size d = data_size ds \<and>
           it_position d = it_position ds"
proof -
  note f = vec_inv_nonempty [OF inv pos]
  note g = f(1-9)
  note m = vec_mid_facts [OF inv f(6) f(1) f(8)]
  let ?C = "unat (capacity ds)"
  let ?H = "unat (head ds)"
  let ?N = "unat (size' ds)"
  let ?P = "unat position"
  let ?xs = "vec_contents ds"
  let ?index = "(head ds + position) mod capacity ds"
  have cpos: "0 < ?C" using f(2) by simp
  have rd: "load_slot (vector ds) ?index = Inr (?xs ! ?P)"
    using f(4,7) m(1,2) by (simp add: load_slot_def vec_contents_def nth_ring)
  have outv: "(if out
        then bind_res (mod_sz (head ds + position) (capacity ds)) (\<lambda>i.
             bind_res (load_slot (vector ds) i) (\<lambda>c. Inr (Some c)))
        else Inr None) = Inr (if out then Some (?xs ! ?P) else None)"
    using f(1) rd by (simp add: mod_sz_def)
  have tpred: "unat ((tail ds - 1 + capacity ds) mod capacity ds) = (?H + (?N - 1)) mod ?C"
  proof -
    have "unat ((tail ds - 1 + capacity ds) mod capacity ds) = (unat (tail ds) + ?C - 1) mod ?C"
      using f(3,5) by (rule unat_pred_mod)
    also have "unat (tail ds) + ?C - 1 = (?H + ?N) mod ?C + (?C - 1)"
      using f(10) cpos by simp
    also have "\<dots> mod ?C = ((?H + ?N) + (?C - 1)) mod ?C" by (rule mod_add_left_eq)
    also have "(?H + ?N) + (?C - 1) = (?H + (?N - 1)) + ?C" using f(7) cpos by simp
    also have "\<dots> mod ?C = (?H + (?N - 1)) mod ?C" by simp
    finally show ?thesis .
  qed
  have hsucc: "unat ((head ds + 1) mod capacity ds) = (?H + 1) mod ?C"
    using unat_succ_mod [OF f(2,5)] by simp
  have h1: "unat (head ds + 1) = Suc ?H"
  proof -
    have "unat (head ds) + unat (1 :: size_t) < 2 ^ 64" using f(2,5) by simp
    then show ?thesis by (simp add: unat_add_small)
  qed
  have tfirst: "unat (tail ds) = ((?H + 1) mod ?C + (?N - 1)) mod ?C"
  proof -
    have "((?H + 1) mod ?C + (?N - 1)) mod ?C = ((?H + 1) + (?N - 1)) mod ?C"
      by (rule mod_add_left_eq)
    also have "(?H + 1) + (?N - 1) = ?H + ?N" using f(7) by simp
    finally show ?thesis using f(10) by simp
  qed
  consider (last) "position = size' ds - 1"
    | (first) "position \<noteq> size' ds - 1" "position = 0"
    | (left) "position \<noteq> size' ds - 1" "position \<noteq> 0" "?index < tail ds"
    | (right) "position \<noteq> size' ds - 1" "position \<noteq> 0" "\<not> ?index < tail ds"
    by blast
  then show ?thesis
  proof cases
    case last
    let ?d = "ds\<lparr>tail := (tail ds - 1 + capacity ds) mod capacity ds, size' := size' ds - 1\<rparr>"
    have P: "?P = ?N - 1" using last g by simp
    have r: "remove_element_from_vector ds position out
        = Inr (LDS_SUCCESS, ?d, if out then Some (?xs ! ?P) else None)"
      unfolding remove_element_from_vector_def outv using last g
      by (simp add: mod_sz_def)
    have i: "vec_inv ?d" using inv g tpred by (simp add: vec_inv_def)
    have c: "vec_contents ?d = take ?P ?xs @ drop (Suc ?P) ?xs"
      using ring_remove_last [of ?N "vector ds" ?H] f(7,9) P
      by (simp add: vec_contents_def)
    show ?thesis using r i c g by simp
  next
    case first
    let ?d = "ds\<lparr>head := (head ds + 1) mod capacity ds, size' := size' ds - 1\<rparr>"
    have r: "remove_element_from_vector ds position out
        = Inr (LDS_SUCCESS, ?d, if out then Some (?xs ! ?P) else None)"
      unfolding remove_element_from_vector_def outv using first g
      by (simp add: mod_sz_def)
    have i: "vec_inv ?d" using inv g hsucc tfirst cpos by (simp add: vec_inv_def)
    have c: "vec_contents ?d = take ?P ?xs @ drop (Suc ?P) ?xs"
      using ring_remove_first [of ?H "vector ds" ?N] g first hsucc
      by (simp add: vec_contents_def)
    show ?thesis using r i c g by simp
  next
    case left
    have IT: "unat ?index < unat (tail ds)" using left(3) by (simp add: word_less_nat_alt)
    let ?b = "move_slots (vector ds) (unat ?index) (Suc (unat ?index))
                (unat (tail ds) - unat ?index - 1)"
    let ?d = "ds\<lparr>vector := ?b, tail := (tail ds - 1 + capacity ds) mod capacity ds,
                 size' := size' ds - 1\<rparr>"
    have p0: "0 < ?P" using left(2) by (simp add: unat_gt_0)
    have pl: "Suc ?P < ?N"
    proof -
      have "?P \<noteq> unat (size' ds - 1)" using left(1) by (simp add: word_unat_eq_iff)
      then show ?thesis using f(7,9) by simp
    qed
    have len: "length ?b = ?C" using g IT by (simp add: length_move_slots)
    have r: "remove_element_from_vector ds position out
        = Inr (LDS_SUCCESS, ?d, if out then Some (?xs ! ?P) else None)"
      unfolding remove_element_from_vector_def outv using left g m(2-7) IT
      by (simp add: mod_sz_def memmove_slots_def Let_def)
    have i: "vec_inv ?d" using inv g tpred len by (simp add: vec_inv_def)
    have c: "vec_contents ?d = take ?P ?xs @ drop (Suc ?P) ?xs"
      using ring_rem_nowrap [of ?H "vector ds" ?N ?P "unat ?index" "unat (tail ds)"]
        f(2,4,6,9,10) p0 pl m(1) IT
      by (simp add: vec_contents_def)
    show ?thesis using r i c g by simp
  next
    case right
    have IT: "\<not> unat ?index < unat (tail ds)" using right(3) by (simp add: word_less_nat_alt)
    let ?b = "move_slots (vector ds) (Suc ?H) ?H ?P"
    let ?d = "ds\<lparr>vector := ?b, head := (head ds + 1) mod capacity ds, size' := size' ds - 1\<rparr>"
    have p0: "0 < ?P" using right(2) by (simp add: unat_gt_0)
    have pl: "Suc ?P < ?N"
    proof -
      have "?P \<noteq> unat (size' ds - 1)" using right(1) by (simp add: word_unat_eq_iff)
      then show ?thesis using f(7,9) by simp
    qed
    have geo: "?H + ?P < ?C"
      using rem_wrap_geo [OF f(2,6) pl] IT m(1) f(10) by simp
    have len: "length ?b = ?C" using g geo by (simp add: length_move_slots)
    have r: "remove_element_from_vector ds position out
        = Inr (LDS_SUCCESS, ?d, if out then Some (?xs ! ?P) else None)"
      unfolding remove_element_from_vector_def outv using right g geo h1
      by (simp add: mod_sz_def memmove_slots_def Let_def)
    have i: "vec_inv ?d" using inv g hsucc tfirst cpos len by (simp add: vec_inv_def)
    have c: "vec_contents ?d = take ?P ?xs @ drop (Suc ?P) ?xs"
      using ring_rem_wrap [of ?H "vector ds" ?N ?P "unat ?index" "unat (tail ds)"]
        f(2,4,6,9,10) p0 pl m(1) IT hsucc
      by (simp add: vec_contents_def)
    show ?thesis using r i c g by simp
  qed
qed



section \<open>The chain of nodes and the iterator of a list\<close>

lemma seg_append:
  "seg h p (xs @ ys) q \<longleftrightarrow> (\<exists>r. seg h p xs r \<and> seg h r ys q)"
  by (induction xs arbitrary: p) (auto split: option.splits)

lemma seg_upd_notin:
  "a \<notin> set as \<Longrightarrow> seg (h(a := x)) p as q = seg h p as q"
  by (induction as arbitrary: p) (auto split: option.splits)

lemma seg_dom: "seg h p as q \<Longrightarrow> set as \<subseteq> dom h"
  by (induction as arbitrary: p) (auto split: option.splits)

lemma seg_start: "seg h p as q \<Longrightarrow> p = (if as = [] then q else Some (hd as))"
  by (cases as) auto

lemma seg_split:
  "seg h p as q \<Longrightarrow> i \<le> length as \<Longrightarrow>
   seg h p (take i as) (if i < length as then Some (as ! i) else q) \<and>
   seg h (if i < length as then Some (as ! i) else q) (drop i as) q"
proof (induction as arbitrary: p i)
  case Nil
  then show ?case by simp
next
  case (Cons a as)
  show ?case
  proof (cases i)
    case 0
    then show ?thesis using Cons.prems by simp
  next
    case (Suc j)
    from Cons.prems obtain nd where nd: "p = Some a" "h a = Some nd" "seg h (node_next nd) as q"
      by (auto split: option.splits)
    from Cons.IH [OF nd(3), of j] Suc Cons.prems nd show ?thesis by auto
  qed
qed

lemma seg_next:
  assumes "seg h p as q" "i < length as"
  shows "\<exists>nd. h (as ! i) = Some nd \<and> node_next nd = (if Suc i < length as then Some (as ! Suc i) else q)"
  using assms
proof (induction as arbitrary: p i)
  case Nil
  then show ?case by simp
next
  case (Cons a as)
  from Cons.prems obtain nd where nd: "p = Some a" "h a = Some nd" "seg h (node_next nd) as q"
    by (auto split: option.splits)
  show ?case
  proof (cases i)
    case 0
    then show ?thesis using nd seg_start [OF nd(3)] by (auto simp: hd_conv_nth)
  next
    case (Suc j)
    then show ?thesis using Cons.IH [OF nd(3), of j] Cons.prems by auto
  qed
qed

lemma seg_last_upd:
  assumes "seg h p0 (xs @ [p]) q" "p \<notin> set xs" "h p = Some pn"
  shows "seg (h(p \<mapsto> pn\<lparr>node_next := r\<rparr>)) p0 (xs @ [p]) r"
  using assms by (auto simp: seg_append seg_upd_notin)

lemma seg_data_upd:
  "h c = Some nd \<Longrightarrow> seg (h(c \<mapsto> nd\<lparr>node_data := v\<rparr>)) p as q = seg h p as q"
  by (induction as arbitrary: p) (auto split: option.splits)

lemma chain_data_seg:
  "seg h p as q \<Longrightarrow> chain_data h p (length as) = node_vals h as"
  by (induction as arbitrary: p) (auto simp: node_vals_def node_val_def split: option.splits)

lemma node_vals_cong:
  "(\<And>a. a \<in> set as \<Longrightarrow> node_val h' a = node_val h a) \<Longrightarrow> node_vals h' as = node_vals h as"
  by (simp add: node_vals_def)

lemma node_val_upd: "node_val (h(a \<mapsto> nd)) b = (if b = a then Val (node_data nd) else node_val h b)"
  by (simp add: node_val_def)

lemma node_val_del: "b \<noteq> a \<Longrightarrow> node_val (h(a := None)) b = node_val h b"
  by (simp add: node_val_def)

lemma node_val_next_upd:
  "h p = Some pn \<Longrightarrow> node_val (h(p \<mapsto> pn\<lparr>node_next := r\<rparr>)) b = node_val h b"
  by (simp add: node_val_def)


lemma unat_pos_succ:
  fixes p k :: size_t
  assumes "unat p < unat k"
  shows "unat (p + 1) = Suc (unat p)"
proof -
  have "unat k < 2 ^ LENGTH(64)" by (rule unsigned_less)
  with assms have "unat p + unat (1 :: size_t) < 2 ^ LENGTH(64)" by simp
  then show ?thesis by (simp add: unat_add_lem [THEN iffD1])
qed

lemma go_loop_correct:
  fixes ds :: "'a LinearDS"
  assumes "seg (heap ds) (list_first ds) as None"
    and "unat (it_position ds) \<le> unat k" and "unat k \<le> length as"
    and "it_current ds = ptr_at as (unat (it_position ds))"
    and "it_previous ds = ptr_before as (unat (it_position ds))"
  shows "it_go_in_list_loop ds k = Inr (cursor_at as ds k)"
  using assms
proof (induction "unat k - unat (it_position ds)" arbitrary: ds)
  case 0
  then have e: "it_position ds = k" by (simp add: word_unat_eq_iff)
  then have "it_go_in_list_loop ds k = Inr ds"
    by (simp add: it_go_in_list_loop.simps [of ds k])
  moreover have "cursor_at as ds k = ds" using 0 e by (simp add: cursor_at_def)
  ultimately show ?case by simp
next
  case (Suc n)
  let ?P = "unat (it_position ds)"
  have lt: "?P < unat k" using Suc.hyps(2) by simp
  then have ltw: "it_position ds < k" by (simp add: word_less_nat_alt)
  have Pl: "?P < length as" using lt Suc.prems by simp
  from seg_next [OF Suc.prems(1) Pl] obtain nd where
    nd: "heap ds (as ! ?P) = Some nd"
      "node_next nd = (if Suc ?P < length as then Some (as ! Suc ?P) else None)"
    by blast
  let ?d = "ds\<lparr>it_position := it_position ds + 1, it_previous := it_current ds,
               it_current := node_next nd\<rparr>"
  have cur: "it_current ds = Some (as ! ?P)" using Suc.prems(4) Pl by (simp add: ptr_at_def)
  have nx: "it_next_in_list ds = Inr (LDS_SUCCESS, ?d)"
    using cur nd by (simp add: it_next_in_list_def)
  have up: "unat (it_position ds + 1) = Suc ?P" using lt by (rule unat_pos_succ)
  have "it_go_in_list_loop ?d k = Inr (cursor_at as ?d k)"
  proof (rule Suc.hyps(1))
    show "n = unat k - unat (it_position ?d)" using Suc.hyps(2) up by simp
    show "seg (heap ?d) (list_first ?d) as None" using Suc.prems(1) by simp
    show "unat (it_position ?d) \<le> unat k" using lt up by simp
    show "unat k \<le> length as" by (rule Suc.prems(3))
    show "it_current ?d = ptr_at as (unat (it_position ?d))"
      using nd(2) up by (simp add: ptr_at_def)
    show "it_previous ?d = ptr_before as (unat (it_position ?d))"
      using cur up Pl by (simp add: ptr_before_def ptr_at_def)
  qed
  moreover have "cursor_at as ?d k = cursor_at as ds k" by (simp add: cursor_at_def)
  ultimately show ?case
    using ltw nx by (simp add: it_go_in_list_loop.simps [of ds k])
qed

lemma list_inv_on_cursor_at:
  assumes "list_inv_on as ds" "unat k \<le> length as"
  shows "list_inv_on as (cursor_at as ds k)"
  using assms by (simp add: list_inv_on_def cursor_at_def)

lemma go_correct:
  fixes ds :: "'a LinearDS"
  assumes inv: "list_inv_on as ds" and k: "unat k \<le> length as"
  shows "it_go_in_list ds k = Inr (LDS_SUCCESS, cursor_at as ds k)"
proof -
  have sg: "seg (heap ds) (list_first ds) as None" using inv by (simp add: list_inv_on_def)
  show ?thesis
  proof (cases "k < it_position ds")
    case True
    let ?r = "ds\<lparr>it_position := 0, it_current := list_first ds, it_previous := None\<rparr>"
    have f: "list_first ds = ptr_at as 0"
      using seg_start [OF sg] by (auto simp: ptr_at_def hd_conv_nth)
    have "it_go_in_list_loop ?r k = Inr (cursor_at as ?r k)"
      using sg k f by (intro go_loop_correct) (simp_all add: ptr_before_def)
    moreover have "cursor_at as ?r k = cursor_at as ds k" by (simp add: cursor_at_def)
    ultimately show ?thesis using True by (simp add: it_go_in_list_def it_reset_in_list_def)
  next
    case False
    then have le: "unat (it_position ds) \<le> unat k" by (simp add: word_less_nat_alt)
    have "it_go_in_list_loop ds k = Inr (cursor_at as ds k)"
      using sg le k inv by (intro go_loop_correct) (simp_all add: list_inv_on_def)
    then show ?thesis using False by (simp add: it_go_in_list_def)
  qed
qed


lemma list_contents_inv:
  assumes "list_inv_on as ds"
  shows "list_contents ds = node_vals (heap ds) as"
  using assms chain_data_seg [of "heap ds" "list_first ds" as None]
  by (simp add: list_contents_def list_inv_on_def)

lemma it_get_list_correct:
  assumes inv: "list_inv_on as ds" and lt: "unat (it_position ds) < length as"
  shows "it_get_from_list ds = Inr (LDS_SUCCESS, ds, Some (list_contents ds ! unat (it_position ds)))"
proof -
  let ?P = "unat (it_position ds)"
  have sg: "seg (heap ds) (list_first ds) as None" and n: "length as = unat (size' ds)"
    and cur: "it_current ds = ptr_at as ?P"
    using inv by (simp_all add: list_inv_on_def)
  from seg_next [OF sg lt] obtain nd where nd: "heap ds (as ! ?P) = Some nd" by blast
  have "\<not> size' ds \<le> it_position ds" using lt n by (simp add: word_le_nat_alt)
  then show ?thesis
    using cur lt nd list_contents_inv [OF inv]
    by (simp add: it_get_from_list_def ptr_at_def node_vals_def node_val_def)
qed

lemma it_set_list_correct:
  assumes inv: "list_inv_on as ds" and lt: "unat (it_position ds) < length as"
  shows "\<exists>d. it_set_in_list ds v
           = Inr (if list_contents ds ! unat (it_position ds) = Val v then LDS_FAIL else LDS_SUCCESS, d) \<and>
           (list_contents ds ! unat (it_position ds) = Val v \<longrightarrow> d = ds) \<and>
           list_inv_on as d \<and>
           list_contents d = (list_contents ds)[unat (it_position ds) := Val v] \<and>
           size' d = size' ds \<and> it_position d = it_position ds"
proof -
  let ?P = "unat (it_position ds)"
  let ?c = "as ! ?P"
  have sg: "seg (heap ds) (list_first ds) as None" and n: "length as = unat (size' ds)"
    and cur: "it_current ds = ptr_at as ?P" and dist: "distinct as"
    using inv by (simp_all add: list_inv_on_def)
  from seg_next [OF sg lt] obtain nd where nd: "heap ds ?c = Some nd" by blast
  have rd: "list_contents ds ! ?P = Val (node_data nd)"
    using lt nd list_contents_inv [OF inv] by (simp add: node_vals_def node_val_def)
  show ?thesis
  proof (cases "node_data nd = v")
    case True
    then have "(list_contents ds)[?P := Val v] = list_contents ds"
      using rd by (metis list_update_id)
    then show ?thesis using True rd cur lt nd inv by (simp add: it_set_in_list_def ptr_at_def)
  next
    case False
    let ?d = "ds\<lparr>heap := (heap ds)(?c \<mapsto> nd\<lparr>node_data := v\<rparr>)\<rparr>"
    have i: "list_inv_on as ?d"
      using inv nd by (simp add: list_inv_on_def seg_data_upd)
    have "node_vals (heap ?d) as = (node_vals (heap ds) as)[?P := Val v]"
    proof (rule nth_equalityI)
      show "length (node_vals (heap ?d) as) = length ((node_vals (heap ds) as)[?P := Val v])"
        by (simp add: node_vals_def)
    next
      fix j assume "j < length (node_vals (heap ?d) as)"
      then have j: "j < length as" by (simp add: node_vals_def)
      have "as ! j = ?c \<longleftrightarrow> j = ?P" using dist j lt by (simp add: nth_eq_iff_index_eq)
      then show "node_vals (heap ?d) as ! j = (node_vals (heap ds) as)[?P := Val v] ! j"
        using j by (simp add: node_vals_def node_val_def nth_list_update)
    qed
    then have c: "list_contents ?d = (list_contents ds)[?P := Val v]"
      using list_contents_inv [OF inv] list_contents_inv [OF i] by simp
    show ?thesis using False rd cur lt nd i c by (simp add: it_set_in_list_def ptr_at_def)
  qed
qed


lemma unat_size_succ_list:
  fixes n :: size_t
  assumes "unat n < 2 ^ 64 - 1"
  shows "unat (n + 1) = Suc (unat n)"
proof -
  have "unat n + unat (1 :: size_t) < 2 ^ LENGTH(64)" using assms by simp
  then show ?thesis by (simp add: unat_add_lem [THEN iffD1])
qed

lemma it_add_list_correct:
  fixes ds :: "'a LinearDS" and v :: 'a
  assumes inv: "list_inv_on as ds" and fresh: "a \<notin> dom (heap ds)"
    and room: "unat (size' ds) < 2 ^ 64 - 1"
  defines "P \<equiv> unat (it_position ds)"
  shows "\<exists>d. it_add_in_list ds v (Mem a) = Inr (LDS_SUCCESS, d) \<and>
           list_inv_on (take P as @ a # drop P as) d \<and>
           list_contents d = take P (list_contents ds) @ Val v # drop P (list_contents ds) \<and>
           size' d = size' ds + 1 \<and> it_position d = it_position ds \<and> data_size d = data_size ds"
proof -
  let ?h = "heap ds"
  let ?N = "unat (size' ds)"
  let ?cur = "it_current ds"
  let ?as' = "take P as @ a # drop P as"
  have sg: "seg ?h (list_first ds) as None" and dist: "distinct as"
    and n: "length as = ?N" and lst: "list_last ds = ptr_before as (length as)"
    and PN: "P \<le> length as" and cur: "?cur = ptr_at as P"
    and prev: "it_previous ds = ptr_before as P" and ty: "type' ds = LDS_LINKED_LIST"
    using inv by (simp_all add: list_inv_on_def P_def)
  have a_as: "a \<notin> set as" using seg_dom [OF sg] fresh by blast
  have sz: "unat (size' ds + 1) = Suc ?N" using room by (rule unat_size_succ_list)
  have p0: "it_position ds = 0 \<longleftrightarrow> P = 0" by (simp add: P_def unat_eq_0)
  have pN: "it_position ds = size' ds \<longleftrightarrow> P = length as"
    by (simp add: P_def n word_unat_eq_iff)
  from seg_split [OF sg PN] cur have
    s1: "seg ?h (list_first ds) (take P as) ?cur" and s2: "seg ?h ?cur (drop P as) None"
    by (simp_all add: ptr_at_def)
  let ?h1 = "?h(a \<mapsto> \<lparr>node_data = v, node_next = ?cur\<rparr>)"
  define h2 where "h2 = (case it_previous ds of None \<Rightarrow> ?h1
      | Some p \<Rightarrow> (case ?h p of None \<Rightarrow> ?h1 | Some pn \<Rightarrow> ?h1(p \<mapsto> pn\<lparr>node_next := Some a\<rparr>)))"
  define d where "d = ds\<lparr>heap := h2, it_current := Some a,
      list_first := (if P = 0 then Some a else list_first ds),
      list_last := (if P = length as then Some a else list_last ds),
      size' := size' ds + 1\<rparr>"
  have prev_live: "\<And>p. it_previous ds = Some p \<Longrightarrow> p \<in> set as \<and> p \<noteq> a \<and> (\<exists>pn. ?h p = Some pn)"
  proof -
    fix p assume "it_previous ds = Some p"
    then have "P \<noteq> 0" "p = as ! (P - 1)" "P - 1 < length as"
      using prev PN by (auto simp: ptr_before_def ptr_at_def split: if_splits)
    then have "p \<in> set as" by simp
    then show "p \<in> set as \<and> p \<noteq> a \<and> (\<exists>pn. ?h p = Some pn)"
      using a_as seg_dom [OF sg] by auto
  qed
  have run: "it_add_in_list ds v (Mem a) = Inr (LDS_SUCCESS, d)"
  proof (cases "it_previous ds")
    case None
    then show ?thesis
      by (simp add: it_add_in_list_def Let_def d_def h2_def p0 pN)
  next
    case (Some p)
    from prev_live [OF Some] obtain pn where "p \<noteq> a" "?h p = Some pn" by blast
    then show ?thesis
      using Some by (simp add: it_add_in_list_def Let_def d_def h2_def p0 pN)
  qed
  have h2a: "h2 a = Some \<lparr>node_data = v, node_next = ?cur\<rparr>"
    using prev_live by (auto simp: h2_def split: option.splits)
  have h2val: "\<And>b. b \<noteq> a \<Longrightarrow> node_val h2 b = node_val ?h b"
    by (auto simp: h2_def node_val_def split: option.splits)
  have seg2: "seg h2 (if P = 0 then Some a else list_first ds) ?as' None"
  proof (cases "P = 0")
    case True
    then have "it_previous ds = None" using prev by (simp add: ptr_before_def)
    then have e: "h2 = ?h1" by (simp add: h2_def)
    have "seg ?h1 ?cur as None" using s2 True a_as by (simp add: seg_upd_notin)
    then show ?thesis using True e by simp
  next
    case False
    let ?p = "as ! (P - 1)"
    have Pl: "P - 1 < length as" using False PN by simp
    have pp: "it_previous ds = Some ?p" using prev False Pl by (simp add: ptr_before_def ptr_at_def)
    from prev_live [OF pp] obtain pn where pn: "?p \<noteq> a" "?h ?p = Some pn" by blast
    have e: "h2 = ?h1(?p \<mapsto> pn\<lparr>node_next := Some a\<rparr>)" using pp pn by (simp add: h2_def)
    have tk: "take P as = take (P - 1) as @ [?p]"
      using False Pl take_Suc_conv_app_nth [of "P - 1" as] by simp
    have pnot: "?p \<notin> set (take (P - 1) as)"
    proof
      assume "?p \<in> set (take (P - 1) as)"
      then obtain j where "j < length (take (P - 1) as)" "take (P - 1) as ! j = ?p"
        by (auto simp: in_set_conv_nth)
      then have "as ! j = as ! (P - 1)" "j < P - 1" by simp_all
      then show False using dist Pl by (simp add: nth_eq_iff_index_eq)
    qed
    have pnot2: "?p \<notin> set (drop P as)"
    proof
      assume "?p \<in> set (drop P as)"
      then obtain j where "j < length (drop P as)" "drop P as ! j = ?p"
        by (auto simp: in_set_conv_nth)
      then have "as ! (P + j) = as ! (P - 1)" "P + j < length as" by simp_all
      then show False using dist Pl False by (simp add: nth_eq_iff_index_eq)
    qed
    have a1: "a \<notin> set (take P as)" "a \<notin> set (drop P as)"
      using a_as by (auto dest: in_set_takeD in_set_dropD)
    have "seg ?h1 (list_first ds) (take (P - 1) as @ [?p]) ?cur"
      using s1 a1 tk by (simp add: seg_upd_notin)
    then have f1: "seg h2 (list_first ds) (take P as) (Some a)"
      unfolding e tk using pnot pn by (intro seg_last_upd) simp_all
    have "seg h2 ?cur (drop P as) None"
      unfolding e using s2 pnot2 a1 by (simp add: seg_upd_notin)
    then have f2: "seg h2 (Some a) (a # drop P as) None" using h2a by simp
    show ?thesis using False f1 f2 by (auto simp: seg_append)
  qed
  have nth': "\<And>j. j \<le> length as \<Longrightarrow> ?as' ! j = (if j < P then as ! j else if j = P then a else as ! (j - 1))"
    using PN by (simp add: nth_ins)
  have len': "length ?as' = Suc (length as)" using PN by simp
  have "distinct (take P as @ drop P as)" using dist by simp
  then have dist': "distinct ?as'"
    using a_as unfolding distinct_append by (auto dest: in_set_takeD in_set_dropD)
  have last': "(if P = length as then Some a else list_last ds) = ptr_before ?as' (length ?as')"
    using lst PN nth' [of "length as"] by (auto simp: ptr_before_def ptr_at_def len')
  have cur': "Some a = ptr_at ?as' P" using PN nth' [of P] by (simp add: ptr_at_def len')
  have prev': "it_previous ds = ptr_before ?as' P"
    using prev PN nth' [of "P - 1"] by (auto simp: ptr_before_def ptr_at_def len')
  have i: "list_inv_on ?as' d"
    unfolding list_inv_on_def
    using ty seg2 dist' len' n sz last' PN cur' prev' by (simp add: d_def P_def)
  have "node_vals h2 ?as' = take P (node_vals ?h as) @ Val v # drop P (node_vals ?h as)"
  proof -
    have same: "node_val h2 b = node_val ?h b" if "b \<in> set as" for b
    proof -
      from that a_as have "b \<noteq> a" by auto
      then show ?thesis by (rule h2val)
    qed
    have "node_vals h2 (take P as) = node_vals ?h (take P as)"
      by (rule node_vals_cong) (auto intro: same dest: in_set_takeD)
    moreover have "node_vals h2 (drop P as) = node_vals ?h (drop P as)"
      by (rule node_vals_cong) (auto intro: same dest: in_set_dropD)
    moreover have "node_val h2 a = Val v" using h2a by (simp add: node_val_def)
    ultimately show ?thesis by (simp add: node_vals_def take_map drop_map)
  qed
  then have c: "list_contents d = take P (list_contents ds) @ Val v # drop P (list_contents ds)"
    using list_contents_inv [OF inv] list_contents_inv [OF i] by (simp add: d_def)
  show ?thesis using run i c by (auto simp: d_def)
qed


lemma distinct_nth_notin_take:
  assumes "distinct as" "i < length as" "k \<le> i"
  shows "as ! i \<notin> set (take k as)"
proof
  assume "as ! i \<in> set (take k as)"
  then obtain j where "j < length (take k as)" "take k as ! j = as ! i"
    by (auto simp: in_set_conv_nth)
  then have "as ! j = as ! i" "j < k" "j < length as" by simp_all
  then show False using assms by (simp add: nth_eq_iff_index_eq)
qed

lemma distinct_nth_notin_drop:
  assumes "distinct as" "i < length as" "i < k"
  shows "as ! i \<notin> set (drop k as)"
proof
  assume "as ! i \<in> set (drop k as)"
  then obtain j where "j < length (drop k as)" "drop k as ! j = as ! i"
    by (auto simp: in_set_conv_nth)
  then have "as ! (k + j) = as ! i" "k + j < length as" by simp_all
  then show False using assms by (simp add: nth_eq_iff_index_eq)
qed

lemma unat_size_pred:
  fixes n :: size_t
  assumes "0 < unat n"
  shows "unat (n - 1) = unat n - 1"
proof -
  have "1 \<le> n" using assms by (simp add: word_le_nat_alt)
  then show ?thesis by (simp add: unat_sub)
qed

lemma it_remove_list_correct:
  fixes ds :: "'a LinearDS"
  assumes inv: "list_inv_on as ds"
  defines "P \<equiv> unat (it_position ds)"
  assumes lt: "P < length as"
  shows "\<exists>d. it_remove_from_list ds out
           = Inr (LDS_SUCCESS, d, if out then Some (list_contents ds ! P) else None) \<and>
           list_inv_on (take P as @ drop (Suc P) as) d \<and>
           list_contents d = take P (list_contents ds) @ drop (Suc P) (list_contents ds) \<and>
           size' d = size' ds - 1 \<and> it_position d = it_position ds \<and> data_size d = data_size ds"
proof -
  let ?h = "heap ds"
  let ?N = "unat (size' ds)"
  let ?r = "as ! P"
  define as' where "as' = take P as @ drop (Suc P) as"
  have sg: "seg ?h (list_first ds) as None" and dist: "distinct as"
    and n: "length as = ?N" and lst: "list_last ds = ptr_before as (length as)"
    and cur: "it_current ds = ptr_at as P"
    and prev: "it_previous ds = ptr_before as P" and ty: "type' ds = LDS_LINKED_LIST"
    using inv by (simp_all add: list_inv_on_def P_def)
  have curr: "it_current ds = Some ?r" using cur lt by (simp add: ptr_at_def)
  from seg_next [OF sg lt] obtain rn where
    rn: "?h ?r = Some rn" "node_next rn = ptr_at as (Suc P)"
    by (auto simp: ptr_at_def)
  let ?nxt = "ptr_at as (Suc P)"
  have sz: "unat (size' ds - 1) = ?N - 1" using lt n by (intro unat_size_pred) simp
  have first: "list_first ds = Some (as ! 0)"
    using seg_start [OF sg] lt by (auto simp: hd_conv_nth)
  have l0: "0 < length as" using lt by arith
  have first_r: "list_first ds = Some ?r \<longleftrightarrow> P = 0"
    using first nth_eq_iff_index_eq [OF dist l0 lt] by auto
  have last_r: "list_last ds = Some ?r \<longleftrightarrow> Suc P = length as"
    using lst dist lt by (auto simp: ptr_before_def ptr_at_def nth_eq_iff_index_eq)
  define h1 where "h1 = (case it_previous ds of None \<Rightarrow> ?h
      | Some p \<Rightarrow> (case ?h p of None \<Rightarrow> ?h | Some pn \<Rightarrow> ?h(p \<mapsto> pn\<lparr>node_next := ?nxt\<rparr>)))"
  define d where "d = ds\<lparr>heap := h1(?r := None), it_current := ?nxt,
      list_first := (if P = 0 then ?nxt else list_first ds),
      list_last := (if Suc P = length as then it_previous ds else list_last ds),
      size' := size' ds - 1\<rparr>"
  have prev_live: "\<And>p. it_previous ds = Some p \<Longrightarrow> \<exists>pn. ?h p = Some pn"
  proof -
    fix p assume "it_previous ds = Some p"
    then have "p = as ! (P - 1)" "P - 1 < length as"
      using prev lt by (auto simp: ptr_before_def ptr_at_def split: if_splits)
    then have "p \<in> set as" by simp
    then show "\<exists>pn. ?h p = Some pn" using seg_dom [OF sg] by auto
  qed
  have run: "it_remove_from_list ds out
      = Inr (LDS_SUCCESS, d, if out then Some (Val (node_data rn)) else None)"
  proof (cases "it_previous ds")
    case None
    then show ?thesis
      using curr rn by (simp add: it_remove_from_list_def Let_def d_def h1_def first_r last_r)
  next
    case (Some p)
    from prev_live [OF Some] obtain pn where "?h p = Some pn" by blast
    then show ?thesis
      using Some curr rn by (simp add: it_remove_from_list_def Let_def d_def h1_def first_r last_r)
  qed
  have rd: "list_contents ds ! P = Val (node_data rn)"
    using lt rn list_contents_inv [OF inv] by (simp add: node_vals_def node_val_def)
  have h1val: "\<And>b. node_val h1 b = node_val ?h b"
    by (auto simp: h1_def node_val_def split: option.splits)
  from seg_split [OF sg, of P] lt have s1: "seg ?h (list_first ds) (take P as) (Some ?r)"
    by simp
  from seg_split [OF sg, of "Suc P"] lt have s2: "seg ?h ?nxt (drop (Suc P) as) None"
    by (simp add: ptr_at_def)
  have r1: "?r \<notin> set (take P as)" using dist lt by (intro distinct_nth_notin_take) simp_all
  have r2: "?r \<notin> set (drop (Suc P) as)" using dist lt by (intro distinct_nth_notin_drop) simp_all
  have "seg (h1(?r := None)) (if P = 0 then ?nxt else list_first ds)
      (take P as @ drop (Suc P) as) None"
  proof (cases "P = 0")
    case True
    then have "it_previous ds = None" using prev by (simp add: ptr_before_def)
    then have e: "h1 = ?h" by (simp add: h1_def)
    show ?thesis using True e s2 r2 by (simp add: seg_upd_notin)
  next
    case False
    let ?p = "as ! (P - 1)"
    have Pl: "P - 1 < length as" using lt by simp
    have pp: "it_previous ds = Some ?p" using prev False Pl by (simp add: ptr_before_def ptr_at_def)
    from prev_live [OF pp] obtain pn where pn: "?h ?p = Some pn" by blast
    have e: "h1 = ?h(?p \<mapsto> pn\<lparr>node_next := ?nxt\<rparr>)" using pp pn by (simp add: h1_def)
    have tk: "take P as = take (P - 1) as @ [?p]"
      using False Pl take_Suc_conv_app_nth [of "P - 1" as] by simp
    have pnot: "?p \<notin> set (take (P - 1) as)"
      using dist Pl by (intro distinct_nth_notin_take) simp_all
    have pnot2: "?p \<notin> set (drop (Suc P) as)"
      using dist Pl False by (intro distinct_nth_notin_drop) simp_all
    have "seg ?h (list_first ds) (take (P - 1) as @ [?p]) (Some ?r)" using s1 tk by simp
    then have "seg h1 (list_first ds) (take (P - 1) as @ [?p]) ?nxt"
      unfolding e using pnot pn by (intro seg_last_upd) simp_all
    then have f1: "seg (h1(?r := None)) (list_first ds) (take P as) ?nxt"
      using r1 tk by (simp add: seg_upd_notin)
    have "seg h1 ?nxt (drop (Suc P) as) None"
      unfolding e using s2 pnot2 by (simp add: seg_upd_notin)
    then have f2: "seg (h1(?r := None)) ?nxt (drop (Suc P) as) None"
      using r2 by (simp add: seg_upd_notin)
    show ?thesis using False f1 f2 by (auto simp: seg_append)
  qed
  then have seg2: "seg (h1(?r := None)) (if P = 0 then ?nxt else list_first ds) as' None"
    by (simp add: as'_def)
  have len': "length as' = length as - 1" using lt by (simp add: as'_def)
  have nth': "\<And>j. Suc j < length as \<Longrightarrow> as' ! j = (if j < P then as ! j else as ! Suc j)"
    by (simp add: nth_del as'_def)
  from dist have "distinct (take P as @ ?r # drop (Suc P) as)"
    by (simp only: id_take_nth_drop [OF lt, symmetric])
  then have dist': "distinct as'" by (simp add: as'_def)
  have last': "(if Suc P = length as then it_previous ds else list_last ds)
      = ptr_before as' (length as')"
  proof (cases "length as = 1")
    case True
    then have "P = 0" "length as' = 0" using lt len' by simp_all
    then show ?thesis using True prev by (simp add: ptr_before_def)
  next
    case False
    then have two: "Suc (length as - 2) < length as" "length as - 1 - 1 = length as - 2"
      "length as - 1 \<noteq> 0" "length as - 2 < length as - 1"
      using lt by arith+
    have e: "as' ! (length as - 2) = (if length as - 2 < P then as ! (length as - 2)
        else as ! Suc (length as - 2))"
      using two(1) by (rule nth')
    show ?thesis
    proof (cases "Suc P = length as")
      case True
      then have "P - 1 = length as - 2" "length as - 2 < P" "P \<noteq> 0" using two by arith+
      then show ?thesis
        using True prev lt e two by (simp add: ptr_before_def ptr_at_def len')
    next
      case False
      then have a: "\<not> length as - 2 < P" "Suc (length as - 2) = length as - 1"
        using lt two by arith+
      have "as' ! (length as - 2) = as ! (length as - 1)" using e a by simp
      moreover have "list_last ds = Some (as ! (length as - 1))"
        using lst lt by (auto simp: ptr_before_def ptr_at_def)
      ultimately have "list_last ds = ptr_before as' (length as')"
        using two by (simp add: ptr_before_def ptr_at_def len')
      then show ?thesis using False by simp
    qed
  qed
  have cur': "?nxt = ptr_at as' P" using lt nth' [of P] by (auto simp: ptr_at_def len')
  have prev': "it_previous ds = ptr_before as' P"
    using prev lt nth' [of "P - 1"] by (auto simp: ptr_before_def ptr_at_def len')
  have i: "list_inv_on as' d"
    unfolding list_inv_on_def
    using ty seg2 dist' len' n sz last' lt cur' prev' by (simp add: d_def P_def)
  have "node_vals (h1(?r := None)) as' = take P (node_vals ?h as) @ drop (Suc P) (node_vals ?h as)"
  proof -
    have same: "node_val (h1(?r := None)) b = node_val ?h b" if "b \<in> set as'" for b
    proof -
      from that r1 r2 have "b \<noteq> ?r" by (auto simp: as'_def)
      then show ?thesis using h1val by (simp add: node_val_del)
    qed
    have "node_vals (h1(?r := None)) (take P as) = node_vals ?h (take P as)"
      by (rule node_vals_cong) (auto intro: same simp: as'_def)
    moreover have "node_vals (h1(?r := None)) (drop (Suc P) as) = node_vals ?h (drop (Suc P) as)"
      by (rule node_vals_cong) (auto intro: same simp: as'_def)
    ultimately show ?thesis by (simp add: node_vals_def take_map drop_map as'_def)
  qed
  then have c: "list_contents d = take P (list_contents ds) @ drop (Suc P) (list_contents ds)"
    using list_contents_inv [OF inv] list_contents_inv [OF i] by (simp add: d_def)
  show ?thesis using run rd i c unfolding as'_def by (auto simp: d_def)
qed

section \<open>The direct interface on well-formed structures\<close>


lemma cursor_at_fields [simp]:
  "heap (cursor_at as ds k) = heap ds" "size' (cursor_at as ds k) = size' ds"
  "list_first (cursor_at as ds k) = list_first ds" "it_position (cursor_at as ds k) = k"
  "data_size (cursor_at as ds k) = data_size ds" "type' (cursor_at as ds k) = type' ds"
  "list_contents (cursor_at as ds k) = list_contents ds"
  by (simp_all add: cursor_at_def list_contents_def)

lemma insert_list_correct:
  fixes ds :: "'a LinearDS" and v :: 'a
  assumes inv: "list_inv_on as ds" and pos: "unat position \<le> length as"
    and fresh: "heap ds a = None" and room: "unat (size' ds) < 2 ^ 64 - 1"
  shows "\<exists>d. insert_element_in_list ds position v (Mem a) = Inr (LDS_SUCCESS, d) \<and>
           list_inv_on (take (unat position) as @ a # drop (unat position) as) d \<and>
           list_contents d = take (unat position) (list_contents ds) @ Val v
                             # drop (unat position) (list_contents ds) \<and>
           size' d = size' ds + 1 \<and> it_position d = position \<and> data_size d = data_size ds"
proof -
  let ?g = "cursor_at as ds position"
  have g: "list_inv_on as ?g" using inv pos by (rule list_inv_on_cursor_at)
  have fr: "a \<notin> dom (heap ?g)" using fresh by (simp add: dom_def)
  have rm: "unat (size' ?g) < 2 ^ 64 - 1" using room by simp
  from it_add_list_correct [OF g fr rm, of v] go_correct [OF inv pos]
  show ?thesis by (simp add: insert_element_in_list_def)
qed

lemma remove_list_correct:
  fixes ds :: "'a LinearDS"
  assumes inv: "list_inv_on as ds" and pos: "unat position < length as"
  shows "\<exists>d. remove_element_from_list ds position out
           = Inr (LDS_SUCCESS, d, if out then Some (list_contents ds ! unat position) else None) \<and>
           list_inv_on (take (unat position) as @ drop (Suc (unat position)) as) d \<and>
           list_contents d = take (unat position) (list_contents ds)
                             @ drop (Suc (unat position)) (list_contents ds) \<and>
           size' d = size' ds - 1 \<and> it_position d = position \<and> data_size d = data_size ds"
proof -
  let ?g = "cursor_at as ds position"
  have pos': "unat position \<le> length as" using pos by simp
  have g: "list_inv_on as ?g" using inv pos' by (rule list_inv_on_cursor_at)
  have lt: "unat (it_position ?g) < length as" using pos by simp
  note r = it_remove_list_correct [OF g lt, of out, unfolded cursor_at_fields]
  from r go_correct [OF inv pos']
  show ?thesis by (simp add: remove_element_from_list_def)
qed

lemma get_list_correct:
  fixes ds :: "'a LinearDS"
  assumes inv: "list_inv_on as ds" and pos: "unat position < length as"
  shows "get_element_from_list ds position
         = Inr (LDS_SUCCESS, cursor_at as ds position, Some (list_contents ds ! unat position))"
proof -
  let ?g = "cursor_at as ds position"
  have pos': "unat position \<le> length as" using pos by simp
  have g: "list_inv_on as ?g" using inv pos' by (rule list_inv_on_cursor_at)
  have lt: "unat (it_position ?g) < length as" using pos by simp
  from it_get_list_correct [OF g lt] go_correct [OF inv pos']
  show ?thesis by (simp add: get_element_from_list_def)
qed

lemma set_list_correct:
  fixes ds :: "'a LinearDS"
  assumes inv: "list_inv_on as ds" and pos: "unat position < length as"
  shows "\<exists>d. set_element_in_list ds position v
           = Inr (if list_contents ds ! unat position = Val v then LDS_FAIL else LDS_SUCCESS, d) \<and>
           list_inv_on as d \<and>
           list_contents d = (list_contents ds)[unat position := Val v] \<and>
           size' d = size' ds \<and> it_position d = position"
proof -
  let ?g = "cursor_at as ds position"
  have pos': "unat position \<le> length as" using pos by simp
  have g: "list_inv_on as ?g" using inv pos' by (rule list_inv_on_cursor_at)
  have lt: "unat (it_position ?g) < length as" using pos by simp
  from it_set_list_correct [OF g lt, of v] go_correct [OF inv pos']
  show ?thesis by (auto simp: set_element_in_list_def)
qed


lemma ds_inv_cases:
  assumes "ds_inv ds"
  obtains (vec) "type' ds = LDS_VECTOR" "vec_inv ds" "contents ds = vec_contents ds"
        | (lst) as where "type' ds = LDS_LINKED_LIST" "list_inv_on as ds"
            "contents ds = list_contents ds"
  using assms
  by (cases "type' ds") (auto simp: ds_inv_def contents_def list_inv_def)

lemma ds_inv_vecI: "vec_inv d \<Longrightarrow> ds_inv d \<and> contents d = vec_contents d \<and> type' d = LDS_VECTOR"
  by (simp add: ds_inv_def contents_def vec_inv_def)

lemma ds_inv_listI:
  "list_inv_on as d \<Longrightarrow> ds_inv d \<and> contents d = list_contents d \<and> type' d = LDS_LINKED_LIST"
  by (auto simp: ds_inv_def contents_def list_inv_def list_inv_on_def)

lemma length_contents:
  assumes "ds_inv ds"
  shows "length (contents ds) = unat (size' ds)"
  using assms
proof (cases rule: ds_inv_cases)
  case vec
  then show ?thesis by (simp add: vec_contents_def length_ring)
next
  case (lst as)
  then show ?thesis
    using list_contents_inv [OF lst(2)] by (simp add: node_vals_def list_inv_on_def)
qed

lemma lds_insert_ok:
  fixes ds :: "'a LinearDS" and v :: 'a
  assumes inv: "ds_inv ds" and pos: "position \<le> size' ds" and al: "alloc_ok ds mem"
  shows "\<exists>d. lds_insert (Some ds) position (Some v) mem = Inr (LDS_SUCCESS, Some d) \<and>
           ds_inv d \<and>
           contents d = take (unat position) (contents ds) @ Val v
                        # drop (unat position) (contents ds) \<and>
           size' d = size' ds + 1 \<and> type' d = type' ds \<and> data_size d = data_size ds"
  using inv
proof (cases rule: ds_inv_cases)
  case vec
  have room: "size' ds \<noteq> capacity ds \<or> mem \<noteq> NoMem \<and> unat (capacity ds) \<le> 2 ^ 62"
    using al vec(1) by (simp add: alloc_ok_def)
  from insert_vec_correct [OF vec(2) pos room, of v] obtain d where
    d: "insert_element_in_vector ds position v (mem \<noteq> NoMem) = Inr (LDS_SUCCESS, d)"
      "vec_inv d"
      "vec_contents d = take (unat position) (vec_contents ds) @ Val v
                        # drop (unat position) (vec_contents ds)"
      "size' d = size' ds + 1" "data_size d = data_size ds"
    by blast
  have np: "\<not> size' ds < position" using pos by simp
  show ?thesis
    using d vec ds_inv_vecI [OF d(2)] np
    by (simp add: lds_insert_def call_insert_def on_ptr_def)
next
  case (lst as)
  from al lst(1) obtain a where a: "mem = Mem a" "heap ds a = None"
    and room: "unat (size' ds) < 2 ^ 64 - 1"
    by (auto simp: alloc_ok_def split: alloc.splits)
  have p: "unat position \<le> length as"
    using pos lst(2) by (simp add: list_inv_on_def word_le_nat_alt)
  from insert_list_correct [OF lst(2) p a(2) room, of v] obtain d where
    d: "insert_element_in_list ds position v (Mem a) = Inr (LDS_SUCCESS, d)"
      "list_inv_on (take (unat position) as @ a # drop (unat position) as) d"
      "list_contents d = take (unat position) (list_contents ds) @ Val v
                        # drop (unat position) (list_contents ds)"
      "size' d = size' ds + 1" "data_size d = data_size ds"
    by blast
  have np: "\<not> size' ds < position" using pos by simp
  show ?thesis
    using d a lst ds_inv_listI [OF d(2)] np
    by (simp add: lds_insert_def call_insert_def on_ptr_def)
qed

lemma lds_remove_ok:
  fixes ds :: "'a LinearDS"
  assumes inv: "ds_inv ds" and pos: "position < size' ds"
  shows "\<exists>d. lds_remove (Some ds) position out
           = Inr (LDS_SUCCESS, Some d, if out then Some (contents ds ! unat position) else None) \<and>
           ds_inv d \<and>
           contents d = take (unat position) (contents ds)
                        @ drop (Suc (unat position)) (contents ds) \<and>
           size' d = size' ds - 1 \<and> type' d = type' ds \<and> data_size d = data_size ds"
  using inv
proof (cases rule: ds_inv_cases)
  case vec
  from remove_vec_correct [OF vec(2) pos, of out] obtain d where
    d: "remove_element_from_vector ds position out
          = Inr (LDS_SUCCESS, d, if out then Some (vec_contents ds ! unat position) else None)"
      "vec_inv d"
      "vec_contents d = take (unat position) (vec_contents ds)
                        @ drop (Suc (unat position)) (vec_contents ds)"
      "size' d = size' ds - 1" "data_size d = data_size ds"
    by blast
  have np: "\<not> size' ds \<le> position" using pos by simp
  show ?thesis
    using d vec ds_inv_vecI [OF d(2)] np
    by (simp add: lds_remove_def call_remove_def on_ptr_out_def)
next
  case (lst as)
  have p: "unat position < length as"
    using pos lst(2) by (simp add: list_inv_on_def word_less_nat_alt)
  from remove_list_correct [OF lst(2) p, of out] obtain d where
    d: "remove_element_from_list ds position out
          = Inr (LDS_SUCCESS, d, if out then Some (list_contents ds ! unat position) else None)"
      "list_inv_on (take (unat position) as @ drop (Suc (unat position)) as) d"
      "list_contents d = take (unat position) (list_contents ds)
                        @ drop (Suc (unat position)) (list_contents ds)"
      "size' d = size' ds - 1" "data_size d = data_size ds"
    by blast
  have np: "\<not> size' ds \<le> position" using pos by simp
  show ?thesis
    using d lst ds_inv_listI [OF d(2)] np
    by (simp add: lds_remove_def call_remove_def on_ptr_out_def)
qed

lemma lds_get_ok:
  fixes ds :: "'a LinearDS"
  assumes inv: "ds_inv ds" and pos: "position < size' ds"
  shows "\<exists>d. lds_get (Some ds) position True
           = Inr (LDS_SUCCESS, Some d, Some (contents ds ! unat position)) \<and>
           ds_inv d \<and> contents d = contents ds \<and> size' d = size' ds \<and> type' d = type' ds"
  using inv
proof (cases rule: ds_inv_cases)
  case vec
  have np: "\<not> size' ds \<le> position" using pos by simp
  show ?thesis
    using get_vec_correct [OF vec(2) pos] vec inv np
    by (simp add: lds_get_def call_get_def on_ptr_out_def)
next
  case (lst as)
  have p: "unat position < length as"
    using pos lst(2) by (simp add: list_inv_on_def word_less_nat_alt)
  then have p': "unat position \<le> length as" by simp
  have np: "\<not> size' ds \<le> position" using pos by simp
  show ?thesis
    using get_list_correct [OF lst(2) p] lst np
      ds_inv_listI [OF list_inv_on_cursor_at [OF lst(2) p']]
    by (simp add: lds_get_def call_get_def on_ptr_out_def)
qed

lemma lds_set_ok:
  fixes ds :: "'a LinearDS"
  assumes inv: "ds_inv ds" and pos: "position < size' ds"
    and wr: "contents ds ! unat position = Val x"
  shows "\<exists>d. lds_set (Some ds) position (Some v)
           = Inr (if contents ds ! unat position = Val v then LDS_FAIL else LDS_SUCCESS, Some d) \<and>
           ds_inv d \<and> contents d = (contents ds)[unat position := Val v] \<and>
           size' d = size' ds \<and> type' d = type' ds"
  using inv
proof (cases rule: ds_inv_cases)
  case vec
  have wr': "vec_contents ds ! unat position = Val x" using wr vec by simp
  from set_vec_correct [OF vec(2) pos wr', of v] obtain d where
    d: "set_element_in_vector ds position v
          = Inr (if vec_contents ds ! unat position = Val v then LDS_FAIL else LDS_SUCCESS, d)"
      "vec_inv d" "vec_contents d = (vec_contents ds)[unat position := Val v]"
      "size' d = size' ds"
    by blast
  have np: "\<not> size' ds \<le> position" using pos by simp
  show ?thesis
    using d vec ds_inv_vecI [OF d(2)] np
    by (simp add: lds_set_def call_set_def on_ptr_def)
next
  case (lst as)
  have p: "unat position < length as"
    using pos lst(2) by (simp add: list_inv_on_def word_less_nat_alt)
  from set_list_correct [OF lst(2) p, of v] obtain d where
    d: "set_element_in_list ds position v
          = Inr (if list_contents ds ! unat position = Val v then LDS_FAIL else LDS_SUCCESS, d)"
      "list_inv_on as d" "list_contents d = (list_contents ds)[unat position := Val v]"
      "size' d = size' ds"
    by blast
  have np: "\<not> size' ds \<le> position" using pos by simp
  show ?thesis
    using d lst ds_inv_listI [OF d(2)] np
    by (simp add: lds_set_def call_set_def on_ptr_def)
qed


lemma length_malloc_slots:
  assumes "unat c * unat dsz < 2 ^ 64"
  shows "length (malloc_slots c dsz :: 'a cell list) = unat c"
proof (cases "dsz = 0")
  case True
  then show ?thesis by (simp add: malloc_slots_def)
next
  case False
  then have p: "0 < unat dsz" by (simp add: unat_gt_0)
  have "unat (c * dsz) = unat c * unat dsz"
    using assms unat_mult_lem [of c dsz] by simp
  then show ?thesis using False p by (simp add: malloc_slots_def)
qed

lemma new_vector_inv:
  assumes "unat c \<le> 2 ^ 63" "unat c * unat dsz < 2 ^ 64"
    "lds_new_vector c dsz True = Some (d :: 'a LinearDS)"
  shows "ds_inv d \<and> contents d = []"
proof -
  note l = length_malloc_slots [OF assms(2), where 'a = 'a]
  have "vec_inv d"
    using assms(1,3) l by (auto simp: lds_new_vector_def vec_inv_def unat_gt_0)
  moreover have "vec_contents d = []"
    using assms(3) by (auto simp: lds_new_vector_def vec_contents_def ring_def)
  ultimately show ?thesis using ds_inv_vecI [of d] by simp
qed

lemma new_list_inv:
  assumes "lds_new_list dsz True u = Some (d :: 'a LinearDS)"
  shows "ds_inv d \<and> contents d = []"
proof -
  have "list_inv_on [] d"
    using assms by (auto simp: lds_new_list_def list_inv_on_def ptr_at_def ptr_before_def)
  moreover have "list_contents d = []" using assms by (auto simp: lds_new_list_def list_contents_def)
  ultimately show ?thesis using ds_inv_listI [of "[]" d] by simp
qed

lemma lds_step_ok:
  fixes ds :: "'a LinearDS"
  assumes inv: "ds_inv ds" and abs: "contents ds = map Val xs" and ok: "call_ok ds c"
  shows "\<exists>r d. lds_step ds c = Inr (r, d) \<and> ds_inv d \<and> contents d = map Val (ref_step xs c)"
proof (cases c)
  case (Insert p v m)
  with ok have "p \<le> size' ds" "alloc_ok ds m" by simp_all
  from lds_insert_ok [OF inv this, of v] show ?thesis
    using Insert abs by (auto simp: lds_step_def take_map drop_map)
next
  case (Remove p out)
  with ok have "p < size' ds" by simp
  from lds_remove_ok [OF inv this, of out] show ?thesis
    using Remove abs by (auto simp: lds_step_def take_map drop_map)
next
  case (Set p v)
  with ok have p: "p < size' ds" by simp
  have "length (contents ds) = unat (size' ds)" using inv by (rule length_contents)
  then have "unat p < length xs" using p abs by (simp add: word_less_nat_alt)
  then have wr: "contents ds ! unat p = Val (xs ! unat p)" using abs by simp
  from lds_set_ok [OF inv p wr, of v] show ?thesis
    using Set abs by (auto simp: lds_step_def map_update)
qed

lemma exec_ok:
  fixes ds :: "'a LinearDS"
  assumes "ds_inv ds" "contents ds = map Val xs" "calls_ok ds cs"
  shows "\<exists>tr. exec ds cs = Inr tr \<and> length tr = length cs \<and>
           (\<forall>i<length cs. ds_inv (tr ! i) \<and> contents (tr ! i) = map Val (ref_exec xs cs ! i))"
  using assms
proof (induction cs arbitrary: ds xs)
  case Nil
  then show ?case by simp
next
  case (Cons c cs)
  from Cons.prems have ok: "call_ok ds c" by simp
  from lds_step_ok [OF Cons.prems(1,2) ok] obtain r d where
    d: "lds_step ds c = Inr (r, d)" "ds_inv d" "contents d = map Val (ref_step xs c)"
    by blast
  from Cons.prems(3) d(1) have "calls_ok d cs" by simp
  from Cons.IH [OF d(2,3) this] obtain tr where
    tr: "exec d cs = Inr tr" "length tr = length cs"
      "\<forall>i<length cs. ds_inv (tr ! i) \<and> contents (tr ! i) = map Val (ref_exec (ref_step xs c) cs ! i)"
    by blast
  have "\<forall>i<length (c # cs). ds_inv ((d # tr) ! i) \<and>
      contents ((d # tr) ! i) = map Val (ref_exec xs (c # cs) ! i)"
    using d tr by (auto simp: nth_Cons')
  then show ?case using d(1) tr(1,2) by simp
qed

section \<open>The rotation of a wrapped insertion, and the iterator on well-formed structures\<close>


lemma rot3_nth:
  assumes "T < I" "I < length buf" "i < length buf"
  shows "((move_slots (move_slots (move_slots buf (Suc 0) 0 T) 0 (length buf - 1) (Suc 0))
            (Suc I) I (length buf - I - 1))[I := v]) ! i
         = (if i = I then v
            else if i = 0 then buf ! (length buf - 1)
            else if i \<le> T then buf ! (i - 1)
            else if I < i then buf ! (i - 1)
            else buf ! i)"
proof -
  let ?C = "length buf"
  define B1 where "B1 = move_slots buf (Suc 0) 0 T"
  define B2 where "B2 = move_slots B1 0 (?C - 1) (Suc 0)"
  define B3 where "B3 = move_slots B2 (Suc I) I (?C - I - 1)"
  have l1: "length B1 = ?C" unfolding B1_def using assms by (simp add: length_move_slots)
  have l2: "length B2 = ?C" unfolding B2_def using l1 assms by (simp add: length_move_slots)
  have l3: "length B3 = ?C" unfolding B3_def using l2 assms by (simp add: length_move_slots)
  have b1_shift: "\<And>j. 0 < j \<Longrightarrow> j \<le> T \<Longrightarrow> B1 ! j = buf ! (j - 1)"
    unfolding B1_def using assms by (simp add: nth_move_slots_right)
  have b1_keep: "\<And>j. T < j \<Longrightarrow> j < ?C \<Longrightarrow> B1 ! j = buf ! j"
    unfolding B1_def using assms by (simp add: nth_move_slots_out)
  have b2_zero: "B2 ! 0 = B1 ! (?C - 1)"
    unfolding B2_def using l1 assms by (simp add: nth_move_slots_in)
  have b2_keep: "\<And>j. 0 < j \<Longrightarrow> j < ?C \<Longrightarrow> B2 ! j = B1 ! j"
    unfolding B2_def using l1 assms by (simp add: nth_move_slots_out)
  have b3_shift: "\<And>j. I < j \<Longrightarrow> j < ?C \<Longrightarrow> B3 ! j = B2 ! (j - 1)"
    unfolding B3_def using l2 assms by (simp add: nth_move_slots_right)
  have b3_keep: "\<And>j. j \<le> I \<Longrightarrow> B3 ! j = B2 ! j"
    unfolding B3_def using l2 assms by (simp add: nth_move_slots_out)
  consider (a) "i = I" | (b) "i = 0" "i \<noteq> I" | (c) "0 < i" "i \<le> T" | (d) "T < i" "i < I"
    | (e) "I < i" by arith
  then have "B3[I := v] ! i
         = (if i = I then v
            else if i = 0 then buf ! (?C - 1)
            else if i \<le> T then buf ! (i - 1)
            else if I < i then buf ! (i - 1)
            else buf ! i)"
  proof cases
    case a
    then show ?thesis using assms l3 by simp
  next
    case b
    have "B3[I := v] ! 0 = B3 ! 0" using b by simp
    also have "\<dots> = B2 ! 0" by (simp add: b3_keep)
    also have "\<dots> = B1 ! (?C - 1)" by (rule b2_zero)
    also have "\<dots> = buf ! (?C - 1)" using assms by (simp add: b1_keep)
    finally show ?thesis using b by simp
  next
    case c
    have "B3[I := v] ! i = B3 ! i" using c assms by simp
    also have "\<dots> = B2 ! i" using c assms by (simp add: b3_keep)
    also have "\<dots> = B1 ! i" using c assms by (simp add: b2_keep)
    also have "\<dots> = buf ! (i - 1)" using c by (simp add: b1_shift)
    finally show ?thesis using c assms by simp
  next
    case d
    have "B3[I := v] ! i = B3 ! i" using d by simp
    also have "\<dots> = B2 ! i" using d by (simp add: b3_keep)
    also have "\<dots> = B1 ! i" using d assms by (simp add: b2_keep)
    also have "\<dots> = buf ! i" using d assms by (simp add: b1_keep)
    finally show ?thesis using d by simp
  next
    case e
    have "B3[I := v] ! i = B3 ! i" using e by simp
    also have "\<dots> = B2 ! (i - 1)" using e assms by (simp add: b3_shift)
    also have "\<dots> = B1 ! (i - 1)" using e assms by (simp add: b2_keep)
    also have "\<dots> = buf ! (i - 1)" using e assms by (simp add: b1_keep)
    finally show ?thesis using e assms by simp
  qed
  then show ?thesis by (simp add: B1_def B2_def B3_def)
qed

lemma ins_wrap_iff:
  fixes H C N p :: nat
  assumes "H < C" "N < C" "0 < p" "p < N"
  shows "\<not> (H + p) mod C < (H + N) mod C \<longleftrightarrow> H + p < C \<and> C \<le> H + N"
proof -
  have pC: "p \<le> C" and NC: "N \<le> C" using assms by simp_all
  show ?thesis
    by (rule phys_cases [OF assms(1) pC]; rule phys_cases [OF assms(1) NC])
       (use assms in arith)+
qed


lemma lds_it_go_ok:
  fixes ds :: "'a LinearDS"
  assumes inv: "ds_inv ds" and k: "k \<le> size' ds"
  shows "\<exists>d. lds_it_go (Some ds) k = Inr (LDS_SUCCESS, Some d) \<and> it_position d = k \<and>
           ds_inv d \<and> contents d = contents ds \<and> size' d = size' ds \<and> type' d = type' ds"
  using inv
proof (cases rule: ds_inv_cases)
  case vec
  have nk: "\<not> size' ds < k" using k by simp
  have "vec_inv (ds\<lparr>it_position := k\<rparr>)" using vec(2) by (simp add: vec_inv_def)
  from ds_inv_vecI [OF this] show ?thesis
    using vec nk by (simp add: lds_it_go_def call_it_go_def it_go_in_vector_def on_ptr_def
        vec_contents_def)
next
  case (lst as)
  have nk: "\<not> size' ds < k" using k by simp
  have p: "unat k \<le> length as" using k lst(2) by (simp add: list_inv_on_def word_le_nat_alt)
  from ds_inv_listI [OF list_inv_on_cursor_at [OF lst(2) p]] go_correct [OF lst(2) p]
  show ?thesis
    using lst nk by (simp add: lds_it_go_def call_it_go_def on_ptr_def)
qed

lemma lds_it_get_ok:
  fixes ds :: "'a LinearDS"
  assumes inv: "ds_inv ds" and k: "it_position ds < size' ds"
  shows "lds_it_get (Some ds) True
         = Inr (LDS_SUCCESS, Some ds, Some (contents ds ! unat (it_position ds)))"
  using inv
proof (cases rule: ds_inv_cases)
  case vec
  have ne: "it_position ds \<noteq> size' ds" using k by auto
  show ?thesis
    using get_vec_correct [OF vec(2) k] vec ne
    by (simp add: lds_it_get_def call_it_get_def it_get_from_vector_def on_ptr_out_def)
next
  case (lst as)
  have ne: "it_position ds \<noteq> size' ds" using k by auto
  have p: "unat (it_position ds) < length as"
    using k lst(2) by (simp add: list_inv_on_def word_less_nat_alt)
  show ?thesis
    using it_get_list_correct [OF lst(2) p] lst ne
    by (simp add: lds_it_get_def call_it_get_def on_ptr_out_def)
qed

lemma lds_it_remove_ok:
  fixes ds :: "'a LinearDS"
  assumes inv: "ds_inv ds" and k: "it_position ds < size' ds"
  shows "\<exists>d. lds_it_remove (Some ds) out
           = Inr (LDS_SUCCESS, Some d,
                  if out then Some (contents ds ! unat (it_position ds)) else None) \<and>
           ds_inv d \<and>
           contents d = take (unat (it_position ds)) (contents ds)
                        @ drop (Suc (unat (it_position ds))) (contents ds) \<and>
           size' d = size' ds - 1 \<and> it_position d = it_position ds"
  using inv
proof (cases rule: ds_inv_cases)
  case vec
  have ne: "it_position ds \<noteq> size' ds" using k by auto
  from remove_vec_correct [OF vec(2) k, of out] obtain d where
    d: "remove_element_from_vector ds (it_position ds) out
          = Inr (LDS_SUCCESS, d,
                 if out then Some (vec_contents ds ! unat (it_position ds)) else None)"
      "vec_inv d"
      "vec_contents d = take (unat (it_position ds)) (vec_contents ds)
                        @ drop (Suc (unat (it_position ds))) (vec_contents ds)"
      "size' d = size' ds - 1" "it_position d = it_position ds"
    by blast
  show ?thesis
    using d vec ds_inv_vecI [OF d(2)] ne
    by (simp add: lds_it_remove_def call_it_remove_def it_remove_from_vector_def on_ptr_out_def)
next
  case (lst as)
  have ne: "it_position ds \<noteq> size' ds" using k by auto
  have p: "unat (it_position ds) < length as"
    using k lst(2) by (simp add: list_inv_on_def word_less_nat_alt)
  from it_remove_list_correct [OF lst(2) p, of out] obtain d where
    d: "it_remove_from_list ds out
          = Inr (LDS_SUCCESS, d,
                 if out then Some (list_contents ds ! unat (it_position ds)) else None)"
      "list_inv_on (take (unat (it_position ds)) as @ drop (Suc (unat (it_position ds))) as) d"
      "list_contents d = take (unat (it_position ds)) (list_contents ds)
                        @ drop (Suc (unat (it_position ds))) (list_contents ds)"
      "size' d = size' ds - 1" "it_position d = it_position ds"
    by blast
  show ?thesis
    using d lst ds_inv_listI [OF d(2)] ne
    by (simp add: lds_it_remove_def call_it_remove_def on_ptr_out_def)
qed

section \<open>Evaluation on the example containers\<close>

lemmas eval_defs =
  lds_step_def lds_insert_def lds_remove_def lds_set_def lds_get_def
  call_insert_def call_remove_def call_set_def call_get_def on_ptr_def on_ptr_out_def
  insert_element_in_vector_def insert_element_in_vector_grow_def
  insert_element_in_vector_place_def remove_element_from_vector_def
  get_element_from_vector_def set_element_in_vector_def memcmp_slot_def
  mod_sz_def store_slot_def load_slot_def memmove_slots_def move_slots_def realloc_slots_def
  alloc_ok_def Let_def

lemma vec0_new: "lds_new_vector 2 4 True = Some vec0"
proof -
  have "replicate (2::nat) (Indeterminate :: nat cell) = [Indeterminate, Indeterminate]"
    by (simp add: numeral_2_eq_2)
  then show ?thesis by (simp add: lds_new_vector_def malloc_slots_def vec0_def)
qed

lemma vec0_inv: "ds_inv vec0 \<and> contents vec0 = map Val []"
  using new_vector_inv [OF _ _ vec0_new] by simp

lemma ring_Suc: "ring buf H (Suc N) = ring buf H N @ [buf ! ((H + N) mod length buf)]"
  by (simp add: ring_def)

lemma ring_0: "ring buf H 0 = []"
  by (simp add: ring_def)

lemma ring_numeral:
  "ring buf H (numeral k)
   = ring buf H (pred_numeral k) @ [buf ! ((H + pred_numeral k) mod length buf)]"
  by (simp add: numeral_eq_Suc ring_Suc)

lemma chain_data_numeral:
  "chain_data h p (numeral k) = chain_data h p (Suc (pred_numeral k))"
  by (simp add: numeral_eq_Suc)

lemma vec_full_inv: "vec_inv vec_full"
  by (simp add: vec_inv_def vec_full_def vec0_def)

lemma vec_full_contents: "vec_contents vec_full = [Val 20, Val 10]"
  by (simp add: vec_contents_def vec_full_def vec0_def ring_numeral ring_Suc ring_0)

lemma vec_wrapped_inv: "vec_inv vec_wrapped"
  by (simp add: vec_inv_def vec_wrapped_def vec0_def)

lemma vec_wrapped_contents: "vec_contents vec_wrapped = [Val 10, Val 20, Val 30]"
  by (simp add: vec_contents_def vec_wrapped_def vec0_def ring_numeral ring_Suc ring_0)

lemma list2_inv_on: "list_inv_on [5, 7] list2"
  by (simp add: list_inv_on_def list2_def ptr_at_def ptr_before_def)

lemma list2_inv: "ds_inv list2"
  using ds_inv_listI [OF list2_inv_on] by simp

lemma list2_contents: "contents list2 = [Val 10, Val 20]"
  by (simp add: contents_def list_contents_def list2_def chain_data_numeral)

section \<open>The claims\<close>

subsection \<open>C1: the container refines the reference sequence\<close>

text \<open>
  C1.  Take a well-formed container \<open>ds\<close> of either strategy (every container that
  \<open>lds_new_list\<close> returns is one, and so is every container that \<open>lds_new_vector\<close>
  returns for a buffer of fewer than \<open>2^64\<close> bytes and at most \<open>2^63\<close> slots, lemmas
  \<open>new_list_inv\<close> and \<open>new_vector_inv\<close>) whose logical contents are the reference sequence \<open>xs\<close>, and any
  sequence \<open>cs\<close> of \<open>lds_insert\<close>, \<open>lds_remove\<close> and \<open>lds_set\<close> calls with valid
  arguments: the position is in range at the moment of the call and the allocator
  serves an insertion.  Then no call has undefined behaviour, and after every call the
  container is well formed and its logical contents are those of the reference
  sequence after the same calls; and for every position below the size, \<open>lds_get\<close>
  returns \<open>LDS_SUCCESS\<close> with the element the reference sequence holds at that position,
  and leaves the contents as they are.
\<close>

theorem lds_refines_reference:
  fixes ds :: "'a LinearDS"
  assumes "ds_inv ds" "contents ds = map Val xs" "calls_ok ds cs"
  shows "\<exists>tr. exec ds cs = Inr tr \<and> length tr = length cs \<and>
           (\<forall>i<length cs.
              ds_inv (tr ! i) \<and>
              contents (tr ! i) = map Val (ref_exec xs cs ! i) \<and>
              (\<forall>pos. unat pos < length (ref_exec xs cs ! i) \<longrightarrow>
                 (\<exists>d. lds_get (Some (tr ! i)) pos True
                        = Inr (LDS_SUCCESS, Some d, Some (Val (ref_exec xs cs ! i ! unat pos))) \<and>
                      contents d = contents (tr ! i))))"
proof -
  from exec_ok [OF assms] obtain tr where
    tr: "exec ds cs = Inr tr" "length tr = length cs"
      "\<forall>i<length cs. ds_inv (tr ! i) \<and> contents (tr ! i) = map Val (ref_exec xs cs ! i)"
    by blast
  have "\<exists>d. lds_get (Some (tr ! i)) pos True
          = Inr (LDS_SUCCESS, Some d, Some (Val (ref_exec xs cs ! i ! unat pos))) \<and>
        contents d = contents (tr ! i)"
    if i: "i < length cs" and p: "unat pos < length (ref_exec xs cs ! i)" for i pos
  proof -
    from tr(3) i have a: "ds_inv (tr ! i)" "contents (tr ! i) = map Val (ref_exec xs cs ! i)"
      by simp_all
    have "length (contents (tr ! i)) = unat (size' (tr ! i))" using a(1) by (rule length_contents)
    then have "pos < size' (tr ! i)" using p a(2) by (simp add: word_less_nat_alt)
    from lds_get_ok [OF a(1) this] show ?thesis using a(2) p by auto
  qed
  then show ?thesis using tr by blast
qed

text \<open>
  The example of the specification on a vector of capacity 2: 10, 20 and 30 inserted at
  position 0 (the third insertion grows the buffer, the second wraps \<open>head\<close>), the
  element at position 1 removed, 40 appended; \<open>get(2)\<close> is 40.
\<close>

theorem lds_refines_reference_witness:
  "ds_inv vec0 \<and> contents vec0 = map Val [] \<and>
   calls_ok vec0 [Insert 0 10 NoMem, Insert 0 20 NoMem, Insert 0 30 (Mem 0), Remove 1 True,
                  Insert 2 40 NoMem] \<and>
   (\<exists>tr. exec vec0 [Insert 0 10 NoMem, Insert 0 20 NoMem, Insert 0 30 (Mem 0), Remove 1 True,
                     Insert 2 40 NoMem] = Inr tr \<and>
      contents (tr ! 0) = [Val 10] \<and> contents (tr ! 2) = [Val 30, Val 20, Val 10] \<and>
      contents (tr ! 4) = [Val 30, Val 10, Val 40] \<and>
      (\<exists>d. lds_get (Some (tr ! 4)) 2 True = Inr (LDS_SUCCESS, Some d, Some (Val 40))))"
proof -
  let ?cs = "[Insert 0 10 NoMem, Insert 0 20 NoMem, Insert 0 30 (Mem 0), Remove 1 True,
              Insert 2 (40::nat) NoMem]"
  have h1: "ds_inv vec0" and h2: "contents vec0 = map Val []" using vec0_inv by simp_all
  have h3: "calls_ok vec0 ?cs" by (simp add: eval_defs vec0_def)
  have r: "ref_exec [] ?cs = [[10], [20, 10], [30, 20, 10], [30, 10], [30, 10, 40]]"
    by simp
  from lds_refines_reference [OF h1 h2 h3] obtain tr where
    tr: "exec vec0 ?cs = Inr tr"
      "\<forall>i<length ?cs.
              ds_inv (tr ! i) \<and>
              contents (tr ! i) = map Val (ref_exec [] ?cs ! i) \<and>
              (\<forall>pos. unat pos < length (ref_exec [] ?cs ! i) \<longrightarrow>
                 (\<exists>d. lds_get (Some (tr ! i)) pos True
                        = Inr (LDS_SUCCESS, Some d, Some (Val (ref_exec [] ?cs ! i ! unat pos))) \<and>
                      contents d = contents (tr ! i)))"
    by blast
  have c0: "contents (tr ! 0) = [Val 10]" using tr(2) [rule_format, of 0] by (simp add: r)
  have c2: "contents (tr ! 2) = [Val 30, Val 20, Val 10]"
    using tr(2) [rule_format, of 2] by (simp add: r)
  have l4: "4 < length ?cs" by simp
  note t4 = tr(2) [rule_format, OF l4]
  have c4: "contents (tr ! 4) = [Val 30, Val 10, Val 40]" using t4 by (simp add: r)
  from t4 have "\<forall>pos. unat pos < length (ref_exec [] ?cs ! 4) \<longrightarrow>
                 (\<exists>d. lds_get (Some (tr ! 4)) pos True
                        = Inr (LDS_SUCCESS, Some d, Some (Val (ref_exec [] ?cs ! 4 ! unat pos))) \<and>
                      contents d = contents (tr ! 4))"
    by blast
  from this [rule_format, of 2] have
    g: "\<exists>d. lds_get (Some (tr ! 4)) 2 True = Inr (LDS_SUCCESS, Some d, Some (Val 40))"
    by (auto simp: r)
  show ?thesis using h1 h2 h3 tr(1) c0 c2 c4 g by blast
qed

subsection \<open>C2: insertion in the middle of a wrapped vector\<close>

text \<open>
  C2.  In a well-formed vector that is not full, an insertion at a middle position
  (\<open>0 < position < size\<close>) succeeds and yields the old logical sequence with the new
  element at that position; so it yields the same logical sequence as the same insertion
  on any other well-formed, not full vector \<open>ds2\<close> with the same contents, wrapped or
  not.  The insertion takes the branch of the three moves exactly when the slot of the
  position lies before the buffer end and the sequence reaches past it
  (\<open>head + position < capacity \<le> head + size\<close>).  Then \<open>head\<close> and \<open>capacity\<close> are unchanged,
  \<open>tail\<close> is advanced by one, and the buffer is the old one with the slots \<open>[0, tail)\<close>
  moved one slot forward, the last slot \<open>capacity - 1\<close> moved to slot 0, the slots
  \<open>[index, capacity - 1)\<close> moved one slot forward and the new element in slot \<open>index\<close>.
\<close>

theorem insert_wrapped_vector:
  fixes ds :: "'a LinearDS" and v :: 'a
  assumes inv: "vec_inv ds" and mid: "0 < position" "position < size' ds"
    and room: "size' ds \<noteq> capacity ds"
  shows "\<exists>d. insert_element_in_vector ds position v ok = Inr (LDS_SUCCESS, d) \<and>
    vec_contents d
      = take (unat position) (vec_contents ds) @ Val v # drop (unat position) (vec_contents ds) \<and>
    (\<forall>ds2 :: 'a LinearDS.
        vec_inv ds2 \<and> size' ds2 \<noteq> capacity ds2 \<and> vec_contents ds2 = vec_contents ds \<longrightarrow>
        (\<exists>d2. insert_element_in_vector ds2 position v ok = Inr (LDS_SUCCESS, d2) \<and>
              vec_contents d2 = vec_contents d)) \<and>
    ((\<not> (head ds + position) mod capacity ds < tail ds)
       = (unat (head ds) + unat position < unat (capacity ds) \<and>
          unat (capacity ds) \<le> unat (head ds) + unat (size' ds))) \<and>
    (\<not> (head ds + position) mod capacity ds < tail ds \<longrightarrow>
       head d = head ds \<and> unat (tail d) = unat (tail ds) + 1 \<and> capacity d = capacity ds \<and>
       (\<forall>i < unat (capacity ds).
          vector d ! i =
            (if i = unat ((head ds + position) mod capacity ds) then Val v
             else if i = 0 then vector ds ! (unat (capacity ds) - 1)
             else if i \<le> unat (tail ds) then vector ds ! (i - 1)
             else if unat ((head ds + position) mod capacity ds) < i then vector ds ! (i - 1)
             else vector ds ! i)))"
proof -
  let ?C = "unat (capacity ds)"
  let ?H = "unat (head ds)"
  let ?N = "unat (size' ds)"
  let ?P = "unat position"
  let ?T = "unat (tail ds)"
  let ?index = "(head ds + position) mod capacity ds"
  have nf: "?N < ?C" using inv room by (auto simp: vec_inv_def word_unat_eq_iff)
  have pos: "position \<le> size' ds" "position \<noteq> size' ds" "position \<noteq> 0"
    using mid by auto
  have p0: "0 < ?P" using mid(1) by (simp add: word_less_nat_alt)
  have pN: "?P < ?N" using mid(2) by (simp add: word_less_nat_alt)
  note f = vec_inv_nonfull [OF inv nf]
  have nf': "?N \<le> ?C" using nf by simp
  note m = vec_mid_facts [OF inv nf' f(1) pos(1)]
  from insert_vec_correct [OF inv pos(1), of ok v] room obtain d where
    d: "insert_element_in_vector ds position v ok = Inr (LDS_SUCCESS, d)"
      "vec_contents d
        = take ?P (vec_contents ds) @ Val v # drop ?P (vec_contents ds)"
    by auto
  have other: "\<exists>d2. insert_element_in_vector ds2 position v ok = Inr (LDS_SUCCESS, d2) \<and>
      vec_contents d2 = vec_contents d"
    if h: "vec_inv ds2 \<and> size' ds2 \<noteq> capacity ds2 \<and> vec_contents ds2 = vec_contents ds"
    for ds2 :: "'a LinearDS"
  proof -
    have "length (vec_contents ds2) = length (vec_contents ds)" using h by simp
    then have "size' ds2 = size' ds"
      by (simp add: vec_contents_def length_ring word_unat_eq_iff)
    then have p2: "position \<le> size' ds2" using pos(1) by simp
    from insert_vec_correct [of ds2 position ok v] h p2 d(2) show ?thesis by auto
  qed
  have iff: "(\<not> ?index < tail ds) = (?H + ?P < ?C \<and> ?C \<le> ?H + ?N)"
    using ins_wrap_iff [OF f(2) nf p0 pN] m(1) f(6) by (simp add: word_less_nat_alt)
  have rot: "head d = head ds \<and> unat (tail d) = ?T + 1 \<and> capacity d = capacity ds \<and>
       (\<forall>i < ?C.
          vector d ! i =
            (if i = unat ?index then Val v
             else if i = 0 then vector ds ! (?C - 1)
             else if i \<le> ?T then vector ds ! (i - 1)
             else if unat ?index < i then vector ds ! (i - 1)
             else vector ds ! i))"
    if w: "\<not> ?index < tail ds"
  proof -
    from w iff have g: "?H + ?P < ?C" "?C \<le> ?H + ?N" by simp_all
    have I: "unat ?index = ?H + ?P" using m(1) g by simp
    have "(?H + ?N) mod ?C = ?H + ?N - ?C" using g nf f(2) by (intro mod_ring_hi) simp_all
    then have T: "?T = ?H + ?N - ?C" using f(6) by simp
    have TI: "?T < unat ?index" using T I g nf p0 by simp
    have T1: "Suc ?T < ?C" using TI m(2) by simp
    have tl: "unat ((tail ds + 1) mod capacity ds) = ?T + 1"
      using unat_succ_mod [OF f(3,5)] T1 by simp
    from place_mid_wrap(1) [OF inv nf pos(2,3,1) w, of v] d(1) room
    have e: "d = ds\<lparr>vector :=
        (move_slots
          (move_slots (move_slots (vector ds) (Suc 0) 0 ?T) 0 (?C - 1) (Suc 0))
          (Suc (unat ?index)) (unat ?index) (?C - unat ?index - 1))
        [unat ?index := Val v],
      tail := (tail ds + 1) mod capacity ds, size' := size' ds + 1\<rparr>"
      by (simp add: insert_element_in_vector_def)
    have nth: "\<And>i. i < ?C \<Longrightarrow> vector d ! i =
            (if i = unat ?index then Val v
             else if i = 0 then vector ds ! (?C - 1)
             else if i \<le> ?T then vector ds ! (i - 1)
             else if unat ?index < i then vector ds ! (i - 1)
             else vector ds ! i)"
      using rot3_nth [OF TI, of "vector ds" _ "Val v"] m(2) f(4) by (simp add: e)
    show ?thesis using nth tl by (simp add: e)
  qed
  show ?thesis using d other iff rot by blast
qed

text \<open>
  The sequence 10, 20, 30 in the slots 2, 3, 0 of four: 99 inserted at position 1 goes to
  slot 3, the old slot 3 goes to slot 0 and the old slot 0 to slot 1.
\<close>

theorem insert_wrapped_vector_witness:
  "vec_inv vec_wrapped \<and> (0 :: size_t) < 1 \<and> 1 < size' vec_wrapped \<and>
   size' vec_wrapped \<noteq> capacity vec_wrapped \<and>
   (\<exists>d. insert_element_in_vector vec_wrapped 1 99 False = Inr (LDS_SUCCESS, d) \<and>
        vec_contents d = [Val 10, Val 99, Val 20, Val 30] \<and>
        head d = head vec_wrapped \<and> unat (tail d) = 2 \<and>
        vector d ! 0 = Val 20 \<and> vector d ! 1 = Val 30 \<and> vector d ! 2 = Val 10 \<and>
        vector d ! 3 = Val 99)"
proof -
  have h1: "vec_inv vec_wrapped" by (rule vec_wrapped_inv)
  have h2: "(0 :: size_t) < 1" by simp
  have h3: "1 < size' vec_wrapped" by (simp add: vec_wrapped_def vec0_def)
  have h4: "size' vec_wrapped \<noteq> capacity vec_wrapped" by (simp add: vec_wrapped_def vec0_def)
  have w: "\<not> (head vec_wrapped + 1) mod capacity vec_wrapped < tail vec_wrapped"
    by (simp add: vec_wrapped_def vec0_def)
  have i: "unat ((head vec_wrapped + 1) mod capacity vec_wrapped) = 3"
    "unat (capacity vec_wrapped) = 4" "unat (tail vec_wrapped) = 1"
    "vector vec_wrapped = [Val 30, Indeterminate, Val 10, Val 20]"
    by (simp_all add: vec_wrapped_def vec0_def)
  from insert_wrapped_vector [OF h1 h2 h3 h4, of 99 False] w obtain d where
    d: "insert_element_in_vector vec_wrapped 1 99 False = Inr (LDS_SUCCESS, d)"
      "vec_contents d = take (unat (1 :: size_t)) (vec_contents vec_wrapped) @ Val 99
                        # drop (unat (1 :: size_t)) (vec_contents vec_wrapped)"
      "head d = head vec_wrapped" "unat (tail d) = unat (tail vec_wrapped) + 1"
      "\<forall>i < unat (capacity vec_wrapped).
          vector d ! i =
            (if i = unat ((head vec_wrapped + 1) mod capacity vec_wrapped) then Val 99
             else if i = 0 then vector vec_wrapped ! (unat (capacity vec_wrapped) - 1)
             else if i \<le> unat (tail vec_wrapped) then vector vec_wrapped ! (i - 1)
             else if unat ((head vec_wrapped + 1) mod capacity vec_wrapped) < i
                  then vector vec_wrapped ! (i - 1)
             else vector vec_wrapped ! i)"
    by blast
  have c: "vec_contents d = [Val 10, Val 99, Val 20, Val 30]"
    using d(2) by (simp add: vec_wrapped_contents)
  have t: "unat (tail d) = 2" using d(4) i by simp
  have v: "vector d ! 0 = Val 20" "vector d ! 1 = Val 30" "vector d ! 2 = Val 10"
    "vector d ! 3 = Val 99"
    using d(5) [rule_format, of 0] d(5) [rule_format, of 1] d(5) [rule_format, of 2]
      d(5) [rule_format, of 3]
    by (simp_all add: i)
  show ?thesis using h1 h2 h3 h4 d(1,3) c t v by blast
qed

subsection \<open>C3: growth of a full vector\<close>

text \<open>
  C3.  In a well-formed vector with \<open>size = capacity\<close> (and a capacity of at most \<open>2^62\<close>
  slots, so that its double is a \<open>size_t\<close> that keeps the index computations from
  wrapping), an insertion whose \<open>realloc\<close> succeeds first grows the vector to \<open>g\<close>: the
  capacity is doubled, or 1 when it was 0; \<open>head \<ge> tail\<close> holds at that moment, the slots
  \<open>[0, tail)\<close> are copied to the slots from the old capacity on, \<open>tail\<close> becomes the old
  capacity plus \<open>tail\<close>, the old slots keep their contents and the logical sequence is
  the old one.  The insertion then succeeds, and the logical sequence, as
  \<open>get_element_from_vector\<close> reads it, is the old one with the new element inserted at
  the position.
\<close>

theorem insert_full_vector_grows:
  fixes ds :: "'a LinearDS" and v :: 'a
  assumes inv: "vec_inv ds" and full: "size' ds = capacity ds"
    and pos: "position \<le> size' ds" and small: "unat (capacity ds) \<le> 2 ^ 62"
  shows "\<exists>g d.
      insert_element_in_vector_grow ds True = Inr (Some g) \<and>
      capacity g = (if capacity ds = 0 then 1 else capacity ds * 2) \<and>
      unat (capacity g) = (if capacity ds = 0 then 1 else 2 * unat (capacity ds)) \<and>
      head g = head ds \<and> size' g = size' ds \<and>
      tail ds \<le> head ds \<and>
      unat (tail g) = unat (capacity ds) + unat (tail ds) \<and>
      (\<forall>i < unat (tail ds). vector g ! (unat (capacity ds) + i) = vector ds ! i) \<and>
      (\<forall>i < unat (capacity ds). vector g ! i = vector ds ! i) \<and>
      vec_contents g = vec_contents ds \<and>
      insert_element_in_vector ds position v True = Inr (LDS_SUCCESS, d) \<and>
      capacity d = capacity g \<and> size' d = size' ds + 1 \<and>
      vec_contents d
        = take (unat position) (vec_contents ds) @ Val v # drop (unat position) (vec_contents ds) \<and>
      (\<forall>p. p < size' d \<longrightarrow>
         get_element_from_vector d p
           = Inr (LDS_SUCCESS, d,
                  Some ((take (unat position) (vec_contents ds) @ Val v
                         # drop (unat position) (vec_contents ds)) ! unat p)))"
proof -
  let ?C = "unat (capacity ds)"
  let ?T = "unat (tail ds)"
  let ?nc = "if capacity ds > 0 then capacity ds * 2 else 1"
  let ?g = "ds\<lparr>vector := move_slots (realloc_slots (vector ds) ?nc) ?C 0 ?T,
              tail := capacity ds + tail ds, capacity := ?nc\<rparr>"
  note gr = grow_correct [OF inv full small]
  have l: "length (vector ds) = ?C" using inv by (simp add: vec_inv_def)
  have t: "?T = unat (head ds)" by (rule vec_inv_full(1) [OF inv full])
  have ht: "tail ds \<le> head ds" using t by (simp add: word_le_nat_alt)
  have nc: "unat ?nc = (if capacity ds = 0 then 1 else 2 * ?C)"
    using gr(5) by (simp add: word_greater_zero_iff)
  have hC: "?C + ?T \<le> unat ?nc"
    using nc t vec_inv_full(2,3) [OF inv full] by (auto simp: unat_gt_0)
  have rs: "realloc_slots (vector ds) ?nc = vector ds @ replicate (unat ?nc - ?C) Indeterminate"
    using l nc by (simp add: realloc_slots_def)
  have lr: "length (realloc_slots (vector ds) ?nc) = unat ?nc"
    using l nc by (simp add: realloc_slots_def)
  have "unat (capacity ds) + unat (tail ds) < 2 ^ 64" using small hC nc by (simp split: if_splits)
  then have tl: "unat (capacity ds + tail ds) = ?C + ?T" by (simp add: unat_add_small)
  have hi: "\<And>i. i < ?T \<Longrightarrow> vector ?g ! (?C + i) = vector ds ! i"
  proof -
    fix i assume i: "i < ?T"
    have "move_slots (realloc_slots (vector ds) ?nc) ?C 0 ?T ! (?C + i)
        = realloc_slots (vector ds) ?nc ! (0 + (?C + i - ?C))"
      using hC lr i by (intro nth_move_slots_in) simp_all
    also have "\<dots> = vector ds ! i"
      using i t l vec_inv_full(2,3) [OF inv full]
      by (cases "capacity ds = 0") (simp_all add: rs nth_append)
    finally show "vector ?g ! (?C + i) = vector ds ! i" by simp
  qed
  have lo: "\<And>i. i < ?C \<Longrightarrow> vector ?g ! i = vector ds ! i"
  proof -
    fix i assume i: "i < ?C"
    have "move_slots (realloc_slots (vector ds) ?nc) ?C 0 ?T ! i
        = realloc_slots (vector ds) ?nc ! i"
      using hC lr i by (intro nth_move_slots_out) simp_all
    also have "\<dots> = vector ds ! i" using i l by (simp add: rs nth_append)
    finally show "vector ?g ! i = vector ds ! i" by simp
  qed
  have room: "size' ds \<noteq> capacity ds \<or> True \<and> unat (capacity ds) \<le> 2 ^ 62"
    using small by simp
  from insert_vec_correct [OF inv pos room, of v] full obtain d where
    d: "insert_element_in_vector ds position v True = Inr (LDS_SUCCESS, d)" "vec_inv d"
      "vec_contents d
        = take (unat position) (vec_contents ds) @ Val v # drop (unat position) (vec_contents ds)"
      "size' d = size' ds + 1" "capacity d = ?nc"
    by auto
  have get: "\<And>p. p < size' d \<Longrightarrow> get_element_from_vector d p
           = Inr (LDS_SUCCESS, d,
                  Some ((take (unat position) (vec_contents ds) @ Val v
                         # drop (unat position) (vec_contents ds)) ! unat p))"
    using get_vec_correct [OF d(2)] d(3) by simp
  have cg: "capacity ?g = (if capacity ds = 0 then 1 else capacity ds * 2)"
    by (simp add: word_greater_zero_iff)
  show ?thesis
    apply (rule exI [of _ ?g])
    apply (rule exI [of _ d])
    using gr(1,3) cg nc ht tl hi lo d get
    apply (simp add: word_greater_zero_iff)
    done
qed

text \<open>The full vector with the sequence 20, 10: 30 inserted at position 0.\<close>

theorem insert_full_vector_grows_witness:
  "vec_inv vec_full \<and> size' vec_full = capacity vec_full \<and> (0 :: size_t) \<le> size' vec_full \<and>
   unat (capacity vec_full) \<le> 2 ^ 62 \<and>
   (\<exists>g d. insert_element_in_vector_grow vec_full True = Inr (Some g) \<and>
      capacity g = 4 \<and> unat (tail g) = 3 \<and> vector g ! 2 = Val 10 \<and>
      insert_element_in_vector vec_full 0 30 True = Inr (LDS_SUCCESS, d) \<and>
      capacity d = 4 \<and> vec_contents d = [Val 30, Val 20, Val 10] \<and>
      get_element_from_vector d 2 = Inr (LDS_SUCCESS, d, Some (Val 10)))"
proof -
  have h1: "vec_inv vec_full" by (rule vec_full_inv)
  have h2: "size' vec_full = capacity vec_full" by (simp add: vec_full_def vec0_def)
  have h3: "(0 :: size_t) \<le> size' vec_full" by simp
  have h4: "unat (capacity vec_full) \<le> 2 ^ 62" by (simp add: vec_full_def vec0_def)
  have i: "capacity vec_full = 2" "unat (capacity vec_full) = 2" "unat (tail vec_full) = 1"
    "size' vec_full = 2" "vector vec_full = [Val 10, Val 20]"
    by (simp_all add: vec_full_def vec0_def)
  from insert_full_vector_grows [OF h1 h2 h3 h4, of 30] obtain g d where
    gd: "insert_element_in_vector_grow vec_full True = Inr (Some g)"
      "capacity g = (if capacity vec_full = 0 then 1 else capacity vec_full * 2)"
      "unat (tail g) = unat (capacity vec_full) + unat (tail vec_full)"
      "\<forall>i < unat (tail vec_full). vector g ! (unat (capacity vec_full) + i) = vector vec_full ! i"
      "insert_element_in_vector vec_full 0 30 True = Inr (LDS_SUCCESS, d)"
      "capacity d = capacity g" "size' d = size' vec_full + 1"
      "vec_contents d = take (unat (0 :: size_t)) (vec_contents vec_full) @ Val 30
                        # drop (unat (0 :: size_t)) (vec_contents vec_full)"
      "\<forall>p. p < size' d \<longrightarrow>
         get_element_from_vector d p
           = Inr (LDS_SUCCESS, d,
                  Some ((take (unat (0 :: size_t)) (vec_contents vec_full) @ Val 30
                         # drop (unat (0 :: size_t)) (vec_contents vec_full)) ! unat p))"
    by blast
  have a: "capacity g = 4" "unat (tail g) = 3" using gd(2,3) i by simp_all
  have b: "vector g ! 2 = Val 10" using gd(4) [rule_format, of 0] i by simp
  have c: "vec_contents d = [Val 30, Val 20, Val 10]" using gd(8) by (simp add: vec_full_contents)
  have "(2 :: size_t) < size' d" using gd(7) i by simp
  from gd(9) [rule_format, OF this]
  have e: "get_element_from_vector d 2 = Inr (LDS_SUCCESS, d, Some (Val 10))"
    by (simp add: vec_full_contents)
  show ?thesis using h1 h2 h3 h4 gd(1,5,6) a b c e by auto
qed

subsection \<open>C4: \<open>lds_remove_last\<close> on an empty container\<close>

text \<open>
  C4.  The claim says that \<open>lds_remove_last\<close> behaves as \<open>lds_remove\<close> at position
  \<open>size - 1\<close> and returns \<open>LDS_POS_ERR\<close> on an empty container, leaving it unchanged.  The
  code calls \<open>ds->remove(ds, ds->size - 1, ...)\<close> without the range check of \<open>lds_remove\<close>.
  On the empty vector \<open>vec0\<close> the position wraps to \<open>2^64 - 1\<close>, which equals the wrapped
  \<open>size - 1\<close>: the call returns \<open>LDS_SUCCESS\<close>, moves \<open>tail\<close> back and leaves the size
  \<open>2^64 - 1\<close>, where \<open>lds_remove\<close> at the same position returns \<open>LDS_POS_ERR\<close> and changes
  nothing.  On an empty list the iterator walks from \<open>NULL\<close>: a \<open>NULL\<close> dereference.
\<close>

theorem lds_remove_last_empty:
  "lds_remove_last (Some vec0) False
     = Inr (LDS_SUCCESS, Some (vec0\<lparr>tail := 1, size' := - 1\<rparr>), None) \<and>
   unat (size' (vec0\<lparr>tail := 1, size' := - 1\<rparr>)) = 2 ^ 64 - 1 \<and>
   lds_remove (Some vec0) (size' vec0 - 1) False = Inr (LDS_POS_ERR, Some vec0, None) \<and>
   lds_remove_last (lds_new_list 4 True 0 :: nat LinearDS option) False = Inl NullDeref"
proof -
  have a: "lds_remove_last (Some vec0) False
     = Inr (LDS_SUCCESS, Some (vec0\<lparr>tail := 1, size' := - 1\<rparr>), None)"
    by (simp add: lds_remove_last_def eval_defs vec0_def)
  have b: "unat (size' (vec0\<lparr>tail := 1, size' := - 1\<rparr>)) = 2 ^ 64 - 1"
    by (simp add: unsigned_minus_1_eq_mask mask_eq_exp_minus_1)
  have c: "lds_remove (Some vec0) (size' vec0 - 1) False = Inr (LDS_POS_ERR, Some vec0, None)"
    by (simp add: lds_remove_def vec0_def)
  have d: "lds_remove_last (lds_new_list 4 True 0 :: nat LinearDS option) False = Inl NullDeref"
    by (simp add: lds_remove_last_def call_remove_def remove_element_from_list_def
        lds_new_list_def it_go_in_list_def on_ptr_out_def it_next_in_list_def
        it_go_in_list_loop.simps [of _ "- 1"] word_greater_zero_iff it_reset_in_list_def)
  show ?thesis using a b c d by blast
qed

subsection \<open>C5: the iterator after a direct removal\<close>

text \<open>
  C5.  The claim says that the position of the iterator stays in \<open>[0, size]\<close> after every
  call of the direct interface, for both strategies.  The list strategy moves its
  iterator in every direct call, and its functions on well-formed lists keep
  \<open>list_inv_on\<close> (lemmas \<open>lds_insert_ok\<close>, \<open>lds_remove_ok\<close>, \<open>lds_set_ok\<close>).  No function of
  the vector strategy writes \<open>it_position\<close>: in the vector with the one element 10, the
  iterator moved after the last element by \<open>lds_it_go\<close> to position 1, the call
  \<open>lds_remove\<close> at position 0 leaves the size 0 and the iterator at position 1.  The
  checks of the iterator functions test \<open>position == size\<close> only, so \<open>lds_it_get\<close> then
  returns \<open>LDS_SUCCESS\<close> with the indeterminate contents of a slot outside the sequence.
\<close>

theorem vector_iterator_beyond_size:
  "lds_insert (Some vec0) 0 (Some 10) NoMem
     = Inr (LDS_SUCCESS, Some (vec0\<lparr>vector := [Val 10, Indeterminate], tail := 1, size' := 1\<rparr>)) \<and>
   lds_it_go (Some (vec0\<lparr>vector := [Val 10, Indeterminate], tail := 1, size' := 1\<rparr>)) 1
     = Inr (LDS_SUCCESS,
            Some (vec0\<lparr>vector := [Val 10, Indeterminate], tail := 1, size' := 1,
                       it_position := 1\<rparr>)) \<and>
   lds_remove (Some (vec0\<lparr>vector := [Val 10, Indeterminate], tail := 1, size' := 1,
                          it_position := 1\<rparr>)) 0 False
     = Inr (LDS_SUCCESS,
            Some (vec0\<lparr>vector := [Val 10, Indeterminate], it_position := 1\<rparr>), None) \<and>
   size' (vec0\<lparr>vector := [Val 10, Indeterminate], it_position := 1\<rparr>)
     < it_position (vec0\<lparr>vector := [Val 10, Indeterminate], it_position := 1\<rparr>) \<and>
   lds_it_get (Some (vec0\<lparr>vector := [Val 10, Indeterminate], it_position := 1\<rparr>)) True
     = Inr (LDS_SUCCESS, Some (vec0\<lparr>vector := [Val 10, Indeterminate], it_position := 1\<rparr>),
            Some Indeterminate)"
  by (simp add: eval_defs vec0_def lds_it_go_def call_it_go_def it_go_in_vector_def
      lds_it_get_def call_it_get_def it_get_from_vector_def)

subsection \<open>C6: \<open>lds_insert_last\<close> with a \<open>NULL\<close> container\<close>

text \<open>
  C6.  The claim says that every entry point returns \<open>LDS_NULL\<close> for a \<open>NULL\<close> container
  before anything else, \<open>lds_insert_last\<close> in particular.  \<open>lds_insert\<close> does, but
  \<open>lds_insert_last\<close> reads \<open>ds->size\<close> for the argument list of its call of \<open>lds_insert\<close>
  and so dereferences the \<open>NULL\<close> pointer before any check.
\<close>

theorem lds_insert_last_null_container:
  "lds_insert_last (None :: nat LinearDS option) (Some 7) (Mem 0) = Inl NullDeref \<and>
   lds_insert (None :: nat LinearDS option) 0 (Some 7) (Mem 0) = Inr (LDS_NULL, None)"
  by (simp add: lds_insert_last_def lds_insert_def)

subsection \<open>C7: \<open>lds_set\<close> with the stored value\<close>

text \<open>
  C7.  In a well-formed container of either strategy, at a position below the size
  that holds the element \<open>x\<close>: \<open>lds_set\<close> with a value equal to \<open>x\<close> returns \<open>LDS_FAIL\<close>, the
  "unchanged" result, and leaves the size and the logical contents as they are; with a
  value different from \<open>x\<close> it returns \<open>LDS_SUCCESS\<close>, the size is the same and the logical
  contents are the old ones with that position, and no other, overwritten.
\<close>

theorem lds_set_unchanged_or_applied:
  fixes ds :: "'a LinearDS"
  assumes "ds_inv ds" "pos < size' ds" "contents ds ! unat pos = Val x"
  shows "\<exists>d. lds_set (Some ds) pos (Some v)
           = Inr (if v = x then LDS_FAIL else LDS_SUCCESS, Some d) \<and>
           size' d = size' ds \<and> ds_inv d \<and>
           contents d = (contents ds)[unat pos := Val v] \<and>
           (v = x \<longrightarrow> contents d = contents ds)"
proof -
  from lds_set_ok [OF assms, of v] obtain d where
    d: "lds_set (Some ds) pos (Some v)
           = Inr (if contents ds ! unat pos = Val v then LDS_FAIL else LDS_SUCCESS, Some d)"
      "ds_inv d" "contents d = (contents ds)[unat pos := Val v]" "size' d = size' ds"
    by blast
  have e: "(contents ds ! unat pos = Val v) = (v = x)" using assms(3) by auto
  have "v = x \<Longrightarrow> (contents ds)[unat pos := Val v] = contents ds"
    using assms(3) by (metis list_update_id)
  then show ?thesis using d e by auto
qed

text \<open>
  The wrapped vector 10, 20, 30: 20 stored again at position 1, and 25 stored there.
\<close>

theorem lds_set_unchanged_or_applied_witness:
  "ds_inv vec_wrapped \<and> 1 < size' vec_wrapped \<and> contents vec_wrapped ! unat (1 :: size_t) = Val 20 \<and>
   (\<exists>d. lds_set (Some vec_wrapped) 1 (Some 20) = Inr (LDS_FAIL, Some d) \<and>
        size' d = size' vec_wrapped \<and> contents d = [Val 10, Val 20, Val 30]) \<and>
   (\<exists>d. lds_set (Some vec_wrapped) 1 (Some 25) = Inr (LDS_SUCCESS, Some d) \<and>
        size' d = size' vec_wrapped \<and> contents d = [Val 10, Val 25, Val 30])"
proof -
  have h1: "ds_inv vec_wrapped" using ds_inv_vecI [OF vec_wrapped_inv] by simp
  have h2: "1 < size' vec_wrapped" by (simp add: vec_wrapped_def vec0_def)
  have c: "contents vec_wrapped = [Val 10, Val 20, Val 30]"
    using ds_inv_vecI [OF vec_wrapped_inv] by (simp add: vec_wrapped_contents)
  have h3: "contents vec_wrapped ! unat (1 :: size_t) = Val 20" by (simp add: c)
  from lds_set_unchanged_or_applied [OF h1 h2 h3, of 20]
    lds_set_unchanged_or_applied [OF h1 h2 h3, of 25]
  show ?thesis using h1 h2 h3 by (auto simp: c)
qed

subsection \<open>C8: the iterator after \<open>lds_it_go\<close>\<close>

text \<open>
  C8.  In a well-formed container of either strategy, wherever its iterator stands:
  for \<open>k \<le> size\<close>, \<open>lds_it_go\<close> to \<open>k\<close> returns \<open>LDS_SUCCESS\<close>, the position of the iterator
  is then \<open>k\<close>, size and contents are unchanged, and for \<open>k < size\<close> both \<open>lds_it_get\<close> and
  \<open>lds_get\<close> at \<open>k\<close> return \<open>LDS_SUCCESS\<close> with the element at position \<open>k\<close>; for \<open>k > size\<close>,
  \<open>lds_it_go\<close> returns \<open>LDS_POS_ERR\<close> and changes nothing.
\<close>

theorem cursor_go_consistent:
  fixes ds :: "'a LinearDS"
  assumes "ds_inv ds"
  shows "(k \<le> size' ds \<longrightarrow>
           (\<exists>d. lds_it_go (Some ds) k = Inr (LDS_SUCCESS, Some d) \<and>
                 lds_it_position (Some d) = Inr k \<and>
                 contents d = contents ds \<and> size' d = size' ds \<and>
                 (k < size' ds \<longrightarrow>
                    (\<exists>d'. lds_it_get (Some d) True
                            = Inr (LDS_SUCCESS, Some d, Some (contents ds ! unat k)) \<and>
                          lds_get (Some d) k True
                            = Inr (LDS_SUCCESS, Some d', Some (contents ds ! unat k)))))) \<and>
         (size' ds < k \<longrightarrow> lds_it_go (Some ds) k = Inr (LDS_POS_ERR, Some ds))"
proof (intro conjI impI)
  assume k: "k \<le> size' ds"
  from lds_it_go_ok [OF assms k] obtain d where
    d: "lds_it_go (Some ds) k = Inr (LDS_SUCCESS, Some d)" "it_position d = k"
      "ds_inv d" "contents d = contents ds" "size' d = size' ds"
    by blast
  have "\<exists>d'. lds_it_get (Some d) True = Inr (LDS_SUCCESS, Some d, Some (contents ds ! unat k)) \<and>
      lds_get (Some d) k True = Inr (LDS_SUCCESS, Some d', Some (contents ds ! unat k))"
    if lt: "k < size' ds"
  proof -
    have a: "it_position d < size' d" "k < size' d" using lt d by simp_all
    from lds_it_get_ok [OF d(3) a(1)] lds_get_ok [OF d(3) a(2)] d show ?thesis by auto
  qed
  then show "\<exists>d. lds_it_go (Some ds) k = Inr (LDS_SUCCESS, Some d) \<and>
                 lds_it_position (Some d) = Inr k \<and>
                 contents d = contents ds \<and> size' d = size' ds \<and>
                 (k < size' ds \<longrightarrow>
                    (\<exists>d'. lds_it_get (Some d) True
                            = Inr (LDS_SUCCESS, Some d, Some (contents ds ! unat k)) \<and>
                          lds_get (Some d) k True
                            = Inr (LDS_SUCCESS, Some d', Some (contents ds ! unat k))))"
    using d by (auto simp: lds_it_position_def)
next
  assume "size' ds < k"
  then show "lds_it_go (Some ds) k = Inr (LDS_POS_ERR, Some ds)"
    by (simp add: lds_it_go_def)
qed

text \<open>
  The list 10, 20 with its iterator after the last element: \<open>lds_it_go\<close> back to position
  0 replays from \<open>first\<close>.
\<close>

theorem cursor_go_consistent_witness:
  "ds_inv list2 \<and> 0 \<le> size' list2 \<and> 0 < size' list2 \<and> size' list2 < 3 \<and>
   (\<exists>d d'. lds_it_go (Some list2) 0 = Inr (LDS_SUCCESS, Some d) \<and>
      lds_it_position (Some d) = Inr 0 \<and>
      lds_it_get (Some d) True = Inr (LDS_SUCCESS, Some d, Some (Val 10)) \<and>
      lds_get (Some d) 0 True = Inr (LDS_SUCCESS, Some d', Some (Val 10))) \<and>
   lds_it_go (Some list2) 3 = Inr (LDS_POS_ERR, Some list2)"
proof -
  have h1: "ds_inv list2" by (rule list2_inv)
  have h2: "0 \<le> size' list2" "0 < size' list2" "size' list2 < 3" by (simp_all add: list2_def)
  from cursor_go_consistent [OF h1, of 0] cursor_go_consistent [OF h1, of 3] show ?thesis
    using h1 h2 by (auto simp: list2_contents)
qed

subsection \<open>C9: \<open>lds_capacity\<close> of a list\<close>

text \<open>
  C9.  The claim says that \<open>lds_capacity\<close> returns 0 for a list.  The condition
  \<open>ds != NULL || ds->type == LDS_VECTOR\<close> is true for every container, so the function
  returns the field \<open>capacity\<close> whatever the strategy, and \<open>lds_new_list\<close> never assigns
  that field: for a list whose memory held 7 there, the result is 7.  (For a vector the
  result is its capacity; for \<open>NULL\<close> the condition dereferences \<open>ds\<close>.)
\<close>

theorem lds_capacity_of_list:
  "lds_capacity (lds_new_list 4 True 7 :: nat LinearDS option) = Inr 7 \<and>
   lds_capacity (Some vec0) = Inr 2 \<and>
   lds_capacity (None :: nat LinearDS option) = Inl NullDeref"
  by (simp add: lds_capacity_def lds_new_list_def vec0_def)

subsection \<open>C10: removal without an output pointer\<close>

text \<open>
  C10.  In a well-formed container of either strategy, \<open>lds_remove\<close> at a position below
  the size and \<open>lds_it_remove\<close> with the iterator below the size, both called with a
  \<open>NULL\<close> output pointer, return \<open>LDS_SUCCESS\<close>, store no element, take one from the size
  and remove the element at the position from the logical contents.  With a \<open>NULL\<close>
  value or output pointer, \<open>lds_insert\<close>, \<open>lds_set\<close> and \<open>lds_get\<close> return \<open>LDS_NULL\<close> and
  change nothing.
\<close>

theorem remove_output_pointer_optional:
  fixes ds :: "'a LinearDS"
  assumes "ds_inv ds"
  shows "(pos < size' ds \<longrightarrow>
           (\<exists>d. lds_remove (Some ds) pos False = Inr (LDS_SUCCESS, Some d, None) \<and>
                 size' d = size' ds - 1 \<and> unat (size' d) = unat (size' ds) - 1 \<and>
                 contents d = take (unat pos) (contents ds) @ drop (Suc (unat pos)) (contents ds))) \<and>
         (it_position ds < size' ds \<longrightarrow>
           (\<exists>d. lds_it_remove (Some ds) False = Inr (LDS_SUCCESS, Some d, None) \<and>
                 size' d = size' ds - 1 \<and> unat (size' d) = unat (size' ds) - 1 \<and>
                 contents d = take (unat (it_position ds)) (contents ds)
                              @ drop (Suc (unat (it_position ds))) (contents ds))) \<and>
         lds_insert (Some ds) pos None mem = Inr (LDS_NULL, Some ds) \<and>
         lds_set (Some ds) pos None = Inr (LDS_NULL, Some ds) \<and>
         lds_get (Some ds) pos False = Inr (LDS_NULL, Some ds, None)"
proof -
  have sz: "unat (size' ds - 1) = unat (size' ds) - 1" if "p < size' ds" for p :: size_t
  proof -
    from that have "0 < unat (size' ds)" by (simp add: word_less_nat_alt)
    then show ?thesis by (rule unat_size_pred)
  qed
  have a: "\<exists>d. lds_remove (Some ds) pos False = Inr (LDS_SUCCESS, Some d, None) \<and>
                 size' d = size' ds - 1 \<and> unat (size' d) = unat (size' ds) - 1 \<and>
                 contents d = take (unat pos) (contents ds) @ drop (Suc (unat pos)) (contents ds)"
    if "pos < size' ds"
    using lds_remove_ok [OF assms that, of False] sz [OF that] by auto
  have b: "\<exists>d. lds_it_remove (Some ds) False = Inr (LDS_SUCCESS, Some d, None) \<and>
                 size' d = size' ds - 1 \<and> unat (size' d) = unat (size' ds) - 1 \<and>
                 contents d = take (unat (it_position ds)) (contents ds)
                              @ drop (Suc (unat (it_position ds))) (contents ds)"
    if "it_position ds < size' ds"
    using lds_it_remove_ok [OF assms that, of False] sz [OF that] by auto
  show ?thesis
    using a b by (simp add: lds_insert_def lds_set_def lds_get_def)
qed

text \<open>The wrapped vector 10, 20, 30, its iterator at position 0: the removal of 20 and of 10.\<close>

theorem remove_output_pointer_optional_witness:
  "ds_inv vec_wrapped \<and> 1 < size' vec_wrapped \<and> it_position vec_wrapped < size' vec_wrapped \<and>
   (\<exists>d. lds_remove (Some vec_wrapped) 1 False = Inr (LDS_SUCCESS, Some d, None) \<and>
        unat (size' d) = 2 \<and> contents d = [Val 10, Val 30]) \<and>
   (\<exists>d. lds_it_remove (Some vec_wrapped) False = Inr (LDS_SUCCESS, Some d, None) \<and>
        unat (size' d) = 2 \<and> contents d = [Val 20, Val 30]) \<and>
   lds_insert (Some vec_wrapped) 1 None NoMem = Inr (LDS_NULL, Some vec_wrapped)"
proof -
  have h1: "ds_inv vec_wrapped" using ds_inv_vecI [OF vec_wrapped_inv] by simp
  have h2: "1 < size' vec_wrapped" "it_position vec_wrapped < size' vec_wrapped"
    by (simp_all add: vec_wrapped_def vec0_def)
  have c: "contents vec_wrapped = [Val 10, Val 20, Val 30]"
    using ds_inv_vecI [OF vec_wrapped_inv] by (simp add: vec_wrapped_contents)
  have i: "unat (size' vec_wrapped) = 3" "unat (it_position vec_wrapped) = 0"
    by (simp_all add: vec_wrapped_def vec0_def)
  from remove_output_pointer_optional [OF h1, of 1 NoMem] show ?thesis
    using h1 h2 by (auto simp: c i)
qed


end
